theory Spec2Isabelle
  imports Main "HOL-Library.Word" "HOL-Library.Multiset"
begin

unbundle bit_operations_syntax

section \<open>Data model of book-maker.py\<close>

text \<open>
  Python integers are unbounded and modelled as \<open>int\<close>; Python's \<open>//\<close> is floor
  division, as \<open>div\<close> on \<open>int\<close>; \<open>|\<close> and \<open><<\<close> are \<open>OR\<close> and \<open>push_bit\<close>.
  Every exception the script can raise is a value of \<open>error\<close>, and a function that
  can raise returns \<open>error + 'a\<close>. Console output (\<open>print\<close>) is not modelled.
\<close>

datatype error =
    KeyError
  | AttributeError
  | InvalidMove
  | ValueError
  | AssertionError
  | RecursionError
  | StructError
  | UnicodeEncodeError

text \<open>The piece kinds of python-chess: \<open>chess.PAWN\<close> .. \<open>chess.KING\<close>.\<close>

datatype piece_type = PAWN | KNIGHT | BISHOP | ROOK | QUEEN | KING

text \<open>
  A \<open>chess.Move\<close>: the fields the script reads. Squares are the integers 0 (a1) to
  63 (h8), \<open>file + 8 * rank\<close>.
\<close>

record move =
  from_square :: int
  to_square :: int
  promotion :: "piece_type option"

text \<open>
  A \<open>chess.polyglot.Entry\<close> as the script builds and unpacks it: the four fields
  \<open>key\<close>, \<open>raw_move\<close>, \<open>weight\<close>, \<open>learn\<close>, all Python integers.
\<close>

record entry =
  key :: int
  raw_move :: int
  weight :: int
  learn :: int

section \<open>Move encoding\<close>

text \<open>
  The dictionary literal of \<open>move_to_polyglot_int\<close>, indexed by \<open>move.promotion\<close>:
  a key that is not in it raises \<open>KeyError\<close>.
\<close>

fun promotion_code :: "piece_type option \<Rightarrow> error + int" where
  "promotion_code None = Inr 0"
| "promotion_code (Some KNIGHT) = Inr 1"
| "promotion_code (Some BISHOP) = Inr 2"
| "promotion_code (Some ROOK) = Inr 3"
| "promotion_code (Some QUEEN) = Inr 4"
| "promotion_code (Some PAWN) = Inl KeyError"
| "promotion_code (Some KING) = Inl KeyError"

text \<open>
  \<open>move_to_polyglot_int(board, move)\<close>. The board is an argument the body never
  reads; the squares are taken from the move as they are.
\<close>

definition move_to_polyglot_int :: "'b \<Rightarrow> move \<Rightarrow> error + int" where
  "move_to_polyglot_int board mv =
     (let to_sq = to_square mv;
          from_sq = from_square mv
      in case promotion_code (promotion mv) of
           Inl e \<Rightarrow> Inl e
         | Inr promo \<Rightarrow> Inr (to_sq OR (push_bit 6 from_sq) OR (push_bit 12 promo)))"

text \<open>Reading the three fields of a 16-bit move code back.\<close>

definition dest_field :: "int \<Rightarrow> int" where
  "dest_field c = c AND 63"

definition origin_field :: "int \<Rightarrow> int" where
  "origin_field c = drop_bit 6 c AND 63"

definition promo_field :: "int \<Rightarrow> int" where
  "promo_field c = drop_bit 12 c AND 7"

section \<open>Book entries\<close>

text \<open>
  The operations of python-chess and the builtin \<open>int\<close> that the script calls. They
  are not part of the script; the model takes them as parameters, so every theorem
  holds for whatever they compute. \<open>'b\<close> is the type of \<open>chess.Board\<close>:
  \<open>zobrist_hash\<close> is \<open>chess.polyglot.zobrist_hash\<close>, \<open>is_legal\<close> and \<open>push\<close>
  are the board's methods (\<open>push\<close> on a copy: the model's boards are values),
  \<open>start_board\<close> is \<open>chess.Board()\<close>, \<open>uci\<close> is \<open>Move.uci\<close>, \<open>from_uci\<close> is
  \<open>chess.Move.from_uci\<close> and \<open>py_int\<close> is \<open>int\<close> applied to a string.
\<close>

record 'b env =
  zobrist_hash :: "'b \<Rightarrow> int"
  is_legal :: "'b \<Rightarrow> move \<Rightarrow> bool"
  push :: "'b \<Rightarrow> move \<Rightarrow> 'b"
  start_board :: 'b
  uci :: "move \<Rightarrow> string"
  from_uci :: "string \<Rightarrow> error + move"
  py_int :: "string \<Rightarrow> error + int"

text \<open>
  \<open>make_entry(board, move, weight=1, learn=0)\<close>; the two defaults are passed
  explicitly by the callers of the model.
\<close>

definition make_entry :: "'b env \<Rightarrow> 'b \<Rightarrow> move \<Rightarrow> int \<Rightarrow> int \<Rightarrow> error + entry" where
  "make_entry env board mv w l =
     (let k = zobrist_hash env board
      in case move_to_polyglot_int board mv of
           Inl e \<Rightarrow> Inl e
         | Inr raw \<Rightarrow> Inr \<lparr>key = k, raw_move = raw, weight = w, learn = l\<rparr>)"

section \<open>Writing the book\<close>

type_synonym byte = "8 word"

text \<open>
  Modelled from the spec: \<open>chess.polyglot.ENTRY_STRUCT\<close> is a constant of python-chess
  and not in the script. The spec gives its layout: big-endian, an 8-byte key, a 2-byte
  move code, a 2-byte weight and a 4-byte learn tag (\<open>struct.Struct(">QHHI")\<close>).
  \<open>struct.pack\<close> raises \<open>struct.error\<close> for a value outside the unsigned range of
  its field.
\<close>

fun be_bytes :: "nat \<Rightarrow> int \<Rightarrow> byte list" where
  "be_bytes 0 v = []"
| "be_bytes (Suc n) v = be_bytes n (v div 256) @ [word_of_int (v mod 256)]"

definition pack_uint :: "nat \<Rightarrow> int \<Rightarrow> error + byte list" where
  "pack_uint n v = (if 0 \<le> v \<and> v < 256 ^ n then Inr (be_bytes n v) else Inl StructError)"

definition pack_entry :: "entry \<Rightarrow> error + byte list" where
  "pack_entry e =
     (case pack_uint 8 (key e) of Inl err \<Rightarrow> Inl err | Inr k \<Rightarrow>
      case pack_uint 2 (raw_move e) of Inl err \<Rightarrow> Inl err | Inr m \<Rightarrow>
      case pack_uint 2 (weight e) of Inl err \<Rightarrow> Inl err | Inr w \<Rightarrow>
      case pack_uint 4 (learn e) of Inl err \<Rightarrow> Inl err | Inr l \<Rightarrow>
      Inr (k @ m @ w @ l))"

text \<open>
  The loop of \<open>write_polyglot_bin\<close>: the file is the list of bytes written so far, and
  it keeps what was written when \<open>pack\<close> raises.
\<close>

fun write_entries :: "byte list \<Rightarrow> entry list \<Rightarrow> byte list \<times> error option" where
  "write_entries f [] = (f, None)"
| "write_entries f (e # es) =
     (case pack_entry e of
        Inl err \<Rightarrow> (f, Some err)
      | Inr bs \<Rightarrow> write_entries (f @ bs) es)"

text \<open>
  \<open>write_polyglot_bin(f, entries)\<close>. Python's \<open>sorted\<close> is stable and so is
  \<open>sort_key\<close>.
\<close>

definition write_polyglot_bin :: "byte list \<Rightarrow> entry list \<Rightarrow> byte list \<times> error option" where
  "write_polyglot_bin f entries = write_entries f (sort_key key entries)"

text \<open>Reading a book back: the big-endian value of a byte string, and the keys of
  the 16-byte records of a file.\<close>

definition be_value :: "byte list \<Rightarrow> int" where
  "be_value bs = foldl (\<lambda>acc b. acc * 256 + uint b) 0 bs"

fun read_keys :: "nat \<Rightarrow> byte list \<Rightarrow> int list" where
  "read_keys 0 bs = []"
| "read_keys (Suc n) bs = be_value (take 8 bs) # read_keys n (drop 16 bs)"

definition book_keys :: "byte list \<Rightarrow> int list" where
  "book_keys bs = read_keys (length bs div 16) bs"

text \<open>
  The fields of a record of the book are a \<open>uint64\<close>, two \<open>uint16\<close> and a
  \<open>uint32\<close>: \<open>entry_ok\<close> holds when the four integers of an entry are in these
  ranges, and \<open>entry_bytes\<close> is the 16 bytes of such an entry.
\<close>

definition entry_ok :: "entry \<Rightarrow> bool" where
  "entry_ok e =
     (0 \<le> key e \<and> key e < 2 ^ 64 \<and> 0 \<le> raw_move e \<and> raw_move e < 2 ^ 16
      \<and> 0 \<le> weight e \<and> weight e < 2 ^ 16 \<and> 0 \<le> learn e \<and> learn e < 2 ^ 32)"

definition entry_bytes :: "entry \<Rightarrow> byte list" where
  "entry_bytes e =
     be_bytes 8 (key e) @ be_bytes 2 (raw_move e) @ be_bytes 2 (weight e) @ be_bytes 4 (learn e)"

section \<open>The engine protocol\<close>

text \<open>
  A \<open>LeelaInterface\<close>: the pipe to the engine's standard input is the list of byte
  strings written to it, the pipe from its standard output is the list of lines still to
  be read. \<open>readline\<close> returns the empty byte string at the end of the stream.
\<close>

record leela =
  proc_stdin :: "string list"
  proc_stdout :: "string list"

text \<open>\<open>send\<close>: \<open>bytes(s, encoding="ascii")\<close> raises for a character above 127.\<close>

definition send :: "leela \<Rightarrow> string \<Rightarrow> error + leela" where
  "send l s =
     (if list_all (\<lambda>c. (of_char c :: nat) < 128) s
      then Inr (l\<lparr>proc_stdin := proc_stdin l @ [s]\<rparr>)
      else Inl UnicodeEncodeError)"

definition readline :: "leela \<Rightarrow> string \<times> leela" where
  "readline l =
     (case proc_stdout l of
        [] \<Rightarrow> ([], l)
      | x # xs \<Rightarrow> (x, l\<lparr>proc_stdout := xs\<rparr>))"

text \<open>The operator \<open>in\<close> on byte strings: \<open>pat\<close> occurs in \<open>s\<close> as a contiguous run.\<close>

fun contains :: "string \<Rightarrow> string \<Rightarrow> bool" where
  "contains pat [] = (pat = [])"
| "contains pat (c # cs) = (take (length pat) (c # cs) = pat \<or> contains pat cs)"

text \<open>
  \<open>str(line)\<close> of a \<open>bytes\<close> object is its \<open>repr\<close>: the letter b, a quote, the
  bytes with the backslash, the quote, tab, newline, carriage return and every byte
  outside the printable ASCII range escaped, and the quote again. The quote is the
  apostrophe, unless the bytes hold an apostrophe and no double quote.
\<close>

definition hex_digit :: "nat \<Rightarrow> char" where
  "hex_digit n = ''0123456789abcdef'' ! (n mod 16)"

definition repr_byte :: "char \<Rightarrow> char \<Rightarrow> string" where
  "repr_byte q c =
     (if c = q \<or> c = CHR 0x5C then [CHR 0x5C, c]
      else if c = CHR 0x09 then [CHR 0x5C, CHR ''t'']
      else if c = CHR 0x0A then [CHR 0x5C, CHR ''n'']
      else if c = CHR 0x0D then [CHR 0x5C, CHR ''r'']
      else if (of_char c :: nat) < 32 \<or> (of_char c :: nat) \<ge> 127
        then [CHR 0x5C, CHR ''x'', hex_digit ((of_char c :: nat) div 16), hex_digit (of_char c)]
      else [c])"

definition py_str :: "string \<Rightarrow> string" where
  "py_str b =
     (let q = (if CHR 0x27 \<in> set b \<and> CHR 0x22 \<notin> set b then CHR 0x22 else CHR 0x27)
      in [CHR ''b'', q] @ concat (map (repr_byte q) b) @ [q])"

text \<open>
  \<open>re.search(lit + "([^ ]+)", s)\<close> for a literal \<open>lit\<close>: the leftmost place where
  \<open>lit\<close> is followed by at least one character that is not a space; the group is the
  longest run of such characters. \<open>None\<close> when there is no such place.
\<close>

fun re_search :: "string \<Rightarrow> string \<Rightarrow> string option" where
  "re_search lit [] = None"
| "re_search lit (c # cs) =
     (let tok = takeWhile (\<lambda>x. x \<noteq> CHR 0x20) (drop (length lit) (c # cs))
      in if take (length lit) (c # cs) = lit \<and> tok \<noteq> [] then Some tok
         else re_search lit cs)"

text \<open>
  The body of the \<open>try\<close> in \<open>probe\<close> for one line: calling \<open>groups\<close> on the
  \<open>None\<close> of a failed search raises \<open>AttributeError\<close>; every exception is raised
  again by the handler.
\<close>

definition parse_dump_line :: "'b env \<Rightarrow> string \<Rightarrow> error + (move \<times> int)" where
  "parse_dump_line env line =
     (case re_search ''move='' (py_str line) of
        None \<Rightarrow> Inl AttributeError
      | Some mtok \<Rightarrow>
          (case from_uci env mtok of
             Inl e \<Rightarrow> Inl e
           | Inr mv \<Rightarrow>
               (case re_search ''n='' (py_str line) of
                  None \<Rightarrow> Inl AttributeError
                | Some ntok \<Rightarrow>
                    (case py_int env ntok of
                       Inl e \<Rightarrow> Inl e
                     | Inr visits \<Rightarrow> Inr (mv, visits)))))"

text \<open>
  A Python \<open>dict\<close> from moves to visit counts is an association list in insertion
  order with distinct keys: \<open>d[k] = v\<close> replaces the value of a key that is there and
  appends a new key at the end; \<open>d[k]\<close> raises \<open>KeyError\<close> for a missing key.
\<close>

fun dict_set :: "('k \<times> 'v) list \<Rightarrow> 'k \<Rightarrow> 'v \<Rightarrow> ('k \<times> 'v) list" where
  "dict_set [] k v = [(k, v)]"
| "dict_set ((k', v') # ps) k v =
     (if k' = k then (k', v) # ps else (k', v') # dict_set ps k v)"

definition getitem :: "('k \<times> 'v) list \<Rightarrow> 'k \<Rightarrow> error + 'v" where
  "getitem d k = (case map_of d k of None \<Rightarrow> Inl KeyError | Some v \<Rightarrow> Inr v)"

text \<open>
  The \<open>while True\<close> loop of \<open>probe\<close>. At the end of the stream \<open>readline\<close> gives
  the empty line, which holds no sentinel and no token, so the loop raises there.
\<close>

function read_dump :: "'b env \<Rightarrow> leela \<Rightarrow> (move \<times> int) list \<Rightarrow> error + ((move \<times> int) list \<times> leela)" where
  "read_dump env l children =
     (case readline l of (line, l') \<Rightarrow>
        if contains ''end-dump'' line then Inr (children, l')
        else (case parse_dump_line env line of
                Inl e \<Rightarrow> Inl e
              | Inr (mv, visits) \<Rightarrow> read_dump env l' (dict_set children mv visits)))"
  by pat_completeness auto
termination
proof (relation "measure (\<lambda>(env, l, children). length (proc_stdout l))")
  show "wf (measure (\<lambda>(env, l, children). length (proc_stdout l)))" by simp
qed (auto simp: readline_def parse_dump_line_def py_str_def Let_def split: list.splits)

declare read_dump.simps [simp del]

text \<open>The command line of \<open>probe\<close>, and \<open>probe\<close> itself.\<close>

definition probe_command :: "'b env \<Rightarrow> move list \<Rightarrow> string" where
  "probe_command env moves =
     ''dumpnode moves'' @ concat (map (\<lambda>mv. CHR 0x20 # uci env mv) moves) @ [CHR 0x0A]"

definition probe :: "'b env \<Rightarrow> leela \<Rightarrow> move list \<Rightarrow> error + ((move \<times> int) list \<times> leela)" where
  "probe env l moves =
     (case send l (probe_command env moves) of
        Inl e \<Rightarrow> Inl e
      | Inr l1 \<Rightarrow> read_dump env l1 [])"

section \<open>Exploring the tree\<close>

text \<open>
  \<open>max(iterable, key=f)\<close>: the key of each item is computed once, and an item
  replaces the running maximum only when its key is strictly greater, so the first of
  several maximal items is returned. The key function may raise, and \<open>max\<close> of an
  empty iterable raises \<open>ValueError\<close>.
\<close>

fun max_loop :: "('a \<Rightarrow> error + int) \<Rightarrow> 'a \<Rightarrow> int \<Rightarrow> 'a list \<Rightarrow> error + 'a" where
  "max_loop f best bv [] = Inr best"
| "max_loop f best bv (x # xs) =
     (case f x of
        Inl e \<Rightarrow> Inl e
      | Inr v \<Rightarrow> if v > bv then max_loop f x v xs else max_loop f best bv xs)"

definition py_max :: "'a list \<Rightarrow> ('a \<Rightarrow> error + int) \<Rightarrow> error + 'a" where
  "py_max xs f =
     (case xs of
        [] \<Rightarrow> Inl ValueError
      | x # rest \<Rightarrow> (case f x of Inl e \<Rightarrow> Inl e | Inr v \<Rightarrow> max_loop f x v rest))"

text \<open>
  \<open>explore_tree(args, leela, entries, board, moves, visit_threshold)\<close>. The object
  \<open>leela\<close> is a state \<open>s\<close> with its \<open>probe\<close> method \<open>pr\<close>, which returns the
  children and the new state or raises. The list \<open>entries\<close> is passed in and returned
  extended. The first argument is the call depth Python still allows: at depth 0 the
  call raises \<open>RecursionError\<close>. \<open>explore_children\<close> is the \<open>for\<close> loop over
  \<open>children.items()\<close>, with the items still to visit as its last argument.
\<close>

fun explore_tree ::
    "'b env \<Rightarrow> ('s \<Rightarrow> move list \<Rightarrow> error + ((move \<times> int) list \<times> 's)) \<Rightarrow> nat \<Rightarrow> 's
       \<Rightarrow> entry list \<Rightarrow> 'b \<Rightarrow> move list \<Rightarrow> int \<Rightarrow> error + ('s \<times> entry list)"
  and explore_children ::
    "'b env \<Rightarrow> ('s \<Rightarrow> move list \<Rightarrow> error + ((move \<times> int) list \<times> 's)) \<Rightarrow> nat \<Rightarrow> 's
       \<Rightarrow> entry list \<Rightarrow> 'b \<Rightarrow> move list \<Rightarrow> int \<Rightarrow> (move \<times> int) list
       \<Rightarrow> error + ('s \<times> entry list)"
where
  "explore_tree env pr 0 s entries board moves thr = Inl RecursionError"
| "explore_tree env pr (Suc d) s entries board moves thr =
     (case pr s moves of
        Inl e \<Rightarrow> Inl e
      | Inr (children, s1) \<Rightarrow>
          if children = [] then Inr (s1, entries)
          else
            (case py_max (map fst children) (getitem children) of
               Inl e \<Rightarrow> Inl e
             | Inr best_move \<Rightarrow>
                 (case getitem children best_move of
                    Inl e \<Rightarrow> Inl e
                  | Inr v \<Rightarrow>
                      (case make_entry env board best_move (min 0xffff (v div 256)) 0 of
                         Inl e \<Rightarrow> Inl e
                       | Inr en \<Rightarrow>
                           explore_children env pr d s1 (entries @ [en]) board moves thr
                             children))))"
| "explore_children env pr d s entries board moves thr [] = Inr (s, entries)"
| "explore_children env pr d s entries board moves thr ((mv, visits) # rest) =
     (if visits < thr then explore_children env pr d s entries board moves thr rest
      else if \<not> is_legal env board mv then Inl AssertionError
      else
        (case explore_tree env pr d s entries (push env board mv) (moves @ [mv]) thr of
           Inl e \<Rightarrow> Inl e
         | Inr (s', entries') \<Rightarrow>
             explore_children env pr d s' entries' board moves thr rest))"

section \<open>The multiwrite loop\<close>

text \<open>\<open>str\<close> of an integer: its decimal digits, after a minus sign when negative.\<close>

definition digit_char :: "nat \<Rightarrow> char" where
  "digit_char n = ''0123456789'' ! (n mod 10)"

fun digits :: "nat \<Rightarrow> string" where
  "digits n = (if n < 10 then [digit_char n] else digits (n div 10) @ [digit_char n])"

declare digits.simps [simp del]

definition str_int :: "int \<Rightarrow> string" where
  "str_int i = (if i < 0 then CHR ''-'' # digits (nat (- i)) else digits (nat i))"

text \<open>
  The loop of the \<open>multiwrite\<close> branch of the main program, for one dump: the
  state of the engine connection, the files written so far (path and contents, in the
  order of writing) and the threshold. \<open>limit\<close> is the call depth available to
  \<open>explore_tree\<close>. The loop may run forever: its first argument bounds the number of
  passes, and \<open>None\<close> is the loop still running when the bound is used up.
\<close>

definition book_path :: "string \<Rightarrow> int \<Rightarrow> string" where
  "book_path output threshold = output @ ''-'' @ str_int threshold @ ''n.bin''"

fun multiwrite_loop ::
    "nat \<Rightarrow> 'b env \<Rightarrow> ('s \<Rightarrow> move list \<Rightarrow> error + ((move \<times> int) list \<times> 's)) \<Rightarrow> nat \<Rightarrow> string
       \<Rightarrow> 's \<Rightarrow> (string \<times> byte list) list \<Rightarrow> int
       \<Rightarrow> (error + ('s \<times> (string \<times> byte list) list)) option" where
  "multiwrite_loop 0 env pr limit output s files threshold = None"
| "multiwrite_loop (Suc n) env pr limit output s files threshold =
     (case explore_tree env pr limit s [] (start_board env) [] threshold of
        Inl e \<Rightarrow> Some (Inl e)
      | Inr (s', entries) \<Rightarrow>
          if length entries > 2 then
            (case write_polyglot_bin [] entries of
               (bytes, Some e) \<Rightarrow> Some (Inl e)
             | (bytes, None) \<Rightarrow>
                 multiwrite_loop n env pr limit output s'
                   (files @ [(book_path output threshold, bytes)]) (threshold * 2))
          else Some (Inr (s', files)))"

definition multiwrite ::
    "nat \<Rightarrow> 'b env \<Rightarrow> ('s \<Rightarrow> move list \<Rightarrow> error + ((move \<times> int) list \<times> 's)) \<Rightarrow> nat \<Rightarrow> string
       \<Rightarrow> 's \<Rightarrow> (string \<times> byte list) list
       \<Rightarrow> (error + ('s \<times> (string \<times> byte list) list)) option" where
  "multiwrite n env pr limit output s files = multiwrite_loop n env pr limit output s files 256"

text \<open>
  The passes of the loop one by one: pass \<open>i\<close> (from 0) explores with the threshold
  \<open>256 * 2 ^ i\<close>, starting in the state the pass before it left. \<open>pass_state\<close> is
  the state before pass \<open>i\<close>, \<open>pass\<close> the result of pass \<open>i\<close> and
  \<open>pass_entries\<close> the entries it collects.
\<close>

primrec pass_state ::
    "'b env \<Rightarrow> ('s \<Rightarrow> move list \<Rightarrow> error + ((move \<times> int) list \<times> 's)) \<Rightarrow> nat \<Rightarrow> 's \<Rightarrow> nat \<Rightarrow> 's" where
  "pass_state env pr limit s 0 = s"
| "pass_state env pr limit s (Suc i) =
     (case explore_tree env pr limit (pass_state env pr limit s i) [] (start_board env) []
             (256 * 2 ^ i) of
        Inl e \<Rightarrow> pass_state env pr limit s i
      | Inr (s', entries) \<Rightarrow> s')"

definition pass ::
    "'b env \<Rightarrow> ('s \<Rightarrow> move list \<Rightarrow> error + ((move \<times> int) list \<times> 's)) \<Rightarrow> nat \<Rightarrow> 's \<Rightarrow> nat
       \<Rightarrow> error + ('s \<times> entry list)" where
  "pass env pr limit s i =
     explore_tree env pr limit (pass_state env pr limit s i) [] (start_board env) []
       (256 * 2 ^ i)"

definition pass_entries ::
    "'b env \<Rightarrow> ('s \<Rightarrow> move list \<Rightarrow> error + ((move \<times> int) list \<times> 's)) \<Rightarrow> nat \<Rightarrow> 's \<Rightarrow> nat
       \<Rightarrow> entry list" where
  "pass_entries env pr limit s i =
     (case pass env pr limit s i of Inl e \<Rightarrow> [] | Inr (s', entries) \<Rightarrow> entries)"

section \<open>Observing the probes\<close>

text \<open>
  A probe method wrapped so that the state also records, in order, every move path the
  method is called with. What \<open>explore_tree\<close> asks the engine is read off that record.
\<close>

definition traced ::
    "('s \<Rightarrow> move list \<Rightarrow> error + ((move \<times> int) list \<times> 's))
      \<Rightarrow> ('s \<times> move list list) \<Rightarrow> move list
      \<Rightarrow> error + ((move \<times> int) list \<times> ('s \<times> move list list))" where
  "traced pr sl moves =
     (case pr (fst sl) moves of
        Inl e \<Rightarrow> Inl e
      | Inr (children, s') \<Rightarrow> Inr (children, (s', snd sl @ [moves])))"

text \<open>A result whose entries are put behind the entries \<open>es\<close>.\<close>

definition extend :: "entry list \<Rightarrow> error + ('s \<times> entry list) \<Rightarrow> error + ('s \<times> entry list)" where
  "extend es r = (case r of Inl e \<Rightarrow> Inl e | Inr (s, new) \<Rightarrow> Inr (s, es @ new))"

section \<open>A concrete environment\<close>

text \<open>
  An instance of the parameters, to run the model on concrete inputs. A board is the
  list of the moves played from the start, its hash is their number and every move is
  legal; a move is written as its two squares and the letter of the promotion piece; an
  integer is read from decimal digits.
\<close>

definition square_name :: "int \<Rightarrow> string" where
  "square_name sq = [''abcdefgh'' ! nat (sq mod 8), ''12345678'' ! nat (sq div 8 mod 8)]"

fun piece_symbol :: "piece_type \<Rightarrow> char" where
  "piece_symbol PAWN = CHR ''p''"
| "piece_symbol KNIGHT = CHR ''n''"
| "piece_symbol BISHOP = CHR ''b''"
| "piece_symbol ROOK = CHR ''r''"
| "piece_symbol QUEEN = CHR ''q''"
| "piece_symbol KING = CHR ''k''"

definition demo_uci :: "move \<Rightarrow> string" where
  "demo_uci mv =
     square_name (from_square mv) @ square_name (to_square mv)
       @ (case promotion mv of None \<Rightarrow> [] | Some p \<Rightarrow> [piece_symbol p])"

definition parse_square :: "char \<Rightarrow> char \<Rightarrow> int option" where
  "parse_square f r =
     (let fi = int (of_char f) - 97; ri = int (of_char r) - 49
      in if 0 \<le> fi \<and> fi < 8 \<and> 0 \<le> ri \<and> ri < 8 then Some (fi + 8 * ri) else None)"

definition parse_piece :: "char \<Rightarrow> piece_type option" where
  "parse_piece c =
     (if c = CHR ''p'' then Some PAWN else if c = CHR ''n'' then Some KNIGHT
      else if c = CHR ''b'' then Some BISHOP else if c = CHR ''r'' then Some ROOK
      else if c = CHR ''q'' then Some QUEEN else if c = CHR ''k'' then Some KING
      else None)"

definition demo_move :: "string \<Rightarrow> piece_type option \<Rightarrow> error + move" where
  "demo_move sq promo =
     (case sq of
        [a, b, c, d] \<Rightarrow>
          (case parse_square a b of
             None \<Rightarrow> Inl InvalidMove
           | Some f \<Rightarrow>
               (case parse_square c d of
                  None \<Rightarrow> Inl InvalidMove
                | Some t \<Rightarrow>
                    if f = t then Inl InvalidMove
                    else Inr \<lparr>from_square = f, to_square = t, promotion = promo\<rparr>))
      | _ \<Rightarrow> Inl InvalidMove)"

definition demo_from_uci :: "string \<Rightarrow> error + move" where
  "demo_from_uci s =
     (if length s = 4 then demo_move s None
      else if length s = 5 then
        (case parse_piece (s ! 4) of
           None \<Rightarrow> Inl InvalidMove
         | Some p \<Rightarrow> demo_move (take 4 s) (Some p))
      else Inl InvalidMove)"

definition demo_int :: "string \<Rightarrow> error + int" where
  "demo_int s =
     (if s \<noteq> [] \<and> list_all (\<lambda>c. 48 \<le> (of_char c :: nat) \<and> (of_char c :: nat) \<le> 57) s
      then Inr (foldl (\<lambda>acc c. acc * 10 + (int (of_char c) - 48)) 0 s)
      else Inl ValueError)"

definition demo_env :: "move list env" where
  "demo_env =
     \<lparr>zobrist_hash = (\<lambda>b. int (length b)),
      is_legal = (\<lambda>b mv. True),
      push = (\<lambda>b mv. b @ [mv]),
      start_board = [],
      uci = demo_uci,
      from_uci = demo_from_uci,
      py_int = demo_int\<rparr>"

definition e2e4 :: move where
  "e2e4 = \<lparr>from_square = 12, to_square = 28, promotion = None\<rparr>"

definition d2d4 :: move where
  "d2d4 = \<lparr>from_square = 11, to_square = 27, promotion = None\<rparr>"

definition e7e5 :: move where
  "e7e5 = \<lparr>from_square = 52, to_square = 36, promotion = None\<rparr>"

text \<open>
  A probe over a fixed tree: at the root e2e4 has 1000 visits and d2d4 has 5, after
  e2e4 the reply e7e5 has 300 visits, and every other node has no children.
\<close>

definition demo_probe :: "unit \<Rightarrow> move list \<Rightarrow> error + ((move \<times> int) list \<times> unit)" where
  "demo_probe s moves =
     (if moves = [] then Inr ([(e2e4, 1000), (d2d4, 5)], ())
      else if moves = [e2e4] then Inr ([(e7e5, 300)], ())
      else Inr ([], ()))"

text \<open>
  A probe whose root has e2e4 with \<open>v\<close> visits after d2d4 with 5, and no children
  anywhere else.
\<close>

definition root_probe :: "int \<Rightarrow> unit \<Rightarrow> move list \<Rightarrow> error + ((move \<times> int) list \<times> unit)" where
  "root_probe v s moves =
     (if moves = [] then Inr ([(d2d4, 5), (e2e4, v)], ()) else Inr ([], ()))"

text \<open>
  A probe over a deeper tree: e2e4 with 1000 visits at the root, then e7e5 with 600,
  then d2d4 with 300, and no children below.
\<close>

definition deep_probe :: "unit \<Rightarrow> move list \<Rightarrow> error + ((move \<times> int) list \<times> unit)" where
  "deep_probe s moves =
     (if moves = [] then Inr ([(e2e4, 1000)], ())
      else if moves = [e2e4] then Inr ([(e7e5, 600)], ())
      else if moves = [e2e4, e7e5] then Inr ([(d2d4, 300)], ())
      else Inr ([], ()))"

section \<open>Properties of the move encoding\<close>

lemma promotion_code_range:
  "promotion_code p = Inr c \<Longrightarrow> 0 \<le> c \<and> c \<le> 4"
  by (cases p rule: promotion_code.cases) auto

lemma promotion_code_defined:
  "p \<noteq> Some PAWN \<Longrightarrow> p \<noteq> Some KING \<Longrightarrow> \<exists>c. promotion_code p = Inr c"
  by (cases p rule: promotion_code.cases) auto

lemma and_63_take_bit: "(c::int) AND 63 = take_bit 6 c"
  using take_bit_eq_mask [of 6 c] by (simp add: mask_eq_exp_minus_1)

lemma and_7_take_bit: "(c::int) AND 7 = take_bit 3 c"
  using take_bit_eq_mask [of 3 c] by (simp add: mask_eq_exp_minus_1)

lemma drop_bit_small: "0 \<le> (t::int) \<Longrightarrow> t < 2 ^ n \<Longrightarrow> drop_bit n t = 0"
  by (simp add: drop_bit_eq_div)

lemma packed_dest:
  fixes t f p :: int
  assumes "0 \<le> t" "t < 64"
  shows "dest_field (t OR push_bit 6 f OR push_bit 12 p) = t"
  using assms
  by (simp add: dest_field_def and_63_take_bit take_bit_or take_bit_push_bit
      take_bit_int_eq_self)

lemma packed_origin:
  fixes t f p :: int
  assumes "0 \<le> t" "t < 64" "0 \<le> f" "f < 64"
  shows "origin_field (t OR push_bit 6 f OR push_bit 12 p) = f"
proof -
  have "drop_bit 6 t = 0"
    using assms drop_bit_small [of t 6] by simp
  then show ?thesis
    using assms
    by (simp add: origin_field_def and_63_take_bit drop_bit_or drop_bit_push_bit
        take_bit_or take_bit_push_bit take_bit_int_eq_self)
qed

lemma packed_promo:
  fixes t f p :: int
  assumes "0 \<le> t" "t < 64" "0 \<le> f" "f < 64" "0 \<le> p" "p \<le> 4"
  shows "promo_field (t OR push_bit 6 f OR push_bit 12 p) = p"
proof -
  have "drop_bit 12 t = 0"
    using assms drop_bit_small [of t 12] by simp
  moreover have "drop_bit 6 f = 0"
    using assms drop_bit_small [of f 6] by simp
  ultimately show ?thesis
    using assms
    by (simp add: promo_field_def and_7_take_bit drop_bit_or drop_bit_push_bit
        take_bit_or take_bit_push_bit take_bit_int_eq_self)
qed

lemma packed_bound:
  fixes t f p :: int
  assumes "0 \<le> t" "t < 64" "0 \<le> f" "f < 64" "0 \<le> p" "p \<le> 4"
  shows "0 \<le> (t OR push_bit 6 f OR push_bit 12 p)"
    and "(t OR push_bit 6 f OR push_bit 12 p) < 2 ^ 15"
proof -
  have a: "t < 2 ^ 15" using assms by simp
  have b: "push_bit 6 f < 2 ^ 15" "0 \<le> push_bit 6 f"
    using assms by (simp_all add: push_bit_eq_mult)
  have c: "push_bit 12 p < 2 ^ 15" "0 \<le> push_bit 12 p"
    using assms by (simp_all add: push_bit_eq_mult)
  have bc: "push_bit 6 f OR push_bit 12 p < 2 ^ 15"
    by (rule OR_upper) (use b c in simp_all)
  have "t OR (push_bit 6 f OR push_bit 12 p) < 2 ^ 15"
    by (rule OR_upper) (use a bc assms in simp_all)
  then show "(t OR push_bit 6 f OR push_bit 12 p) < 2 ^ 15"
    by (simp add: or.assoc)
  show "0 \<le> (t OR push_bit 6 f OR push_bit 12 p)"
    using assms by simp
qed

text \<open>
  C8. For a move whose squares are squares of the board (0 to 63) and whose promotion is
  none, knight, bishop, rook or queen, as those of every legal move are,
  \<open>move_to_polyglot_int\<close> returns a code with the destination square in bits 0 to 5,
  the origin square in bits 6 to 11 and the promotion code in bits 12 to 14, where none
  is 0, knight 1, bishop 2, rook 3 and queen 4; the code is below \<open>2 ^ 15\<close> and so
  fits in 16 bits. The board plays no part, so this covers every non-castling legal move.
\<close>

theorem move_to_polyglot_int_packs:
  assumes "0 \<le> to_square mv" "to_square mv < 64"
    and "0 \<le> from_square mv" "from_square mv < 64"
    and "promotion mv \<noteq> Some PAWN" "promotion mv \<noteq> Some KING"
  shows "\<exists>c. move_to_polyglot_int board mv = Inr c
           \<and> dest_field c = to_square mv
           \<and> origin_field c = from_square mv
           \<and> promo_field c =
               (case promotion mv of None \<Rightarrow> 0 | Some KNIGHT \<Rightarrow> 1 | Some BISHOP \<Rightarrow> 2
                | Some ROOK \<Rightarrow> 3 | Some QUEEN \<Rightarrow> 4 | Some _ \<Rightarrow> 0)
           \<and> 0 \<le> c \<and> c < 2 ^ 15 \<and> c < 2 ^ 16"
proof -
  obtain p where p: "promotion_code (promotion mv) = Inr p"
    using promotion_code_defined assms(5,6) by blast
  then have pr: "0 \<le> p" "p \<le> 4"
    using promotion_code_range by blast+
  let ?c = "to_square mv OR push_bit 6 (from_square mv) OR push_bit 12 p"
  have c: "move_to_polyglot_int board mv = Inr ?c"
    using p by (simp add: move_to_polyglot_int_def)
  have d: "dest_field ?c = to_square mv"
    using assms(1,2) by (rule packed_dest)
  have orig: "origin_field ?c = from_square mv"
    using assms(1-4) by (rule packed_origin)
  have pf: "promo_field ?c = p"
    using assms(1-4) pr by (rule packed_promo)
  have pv: "p = (case promotion mv of None \<Rightarrow> 0 | Some KNIGHT \<Rightarrow> 1 | Some BISHOP \<Rightarrow> 2
                | Some ROOK \<Rightarrow> 3 | Some QUEEN \<Rightarrow> 4 | Some _ \<Rightarrow> 0)"
    using p assms(5,6) by (cases "promotion mv" rule: promotion_code.cases) auto
  have b: "0 \<le> ?c" "?c < 2 ^ 15"
    using assms(1-4) pr by (rule packed_bound)+
  then have "?c < 2 ^ 16" by simp
  with c d orig pf pv b show ?thesis
    by (intro exI [of _ ?c]) simp
qed

text \<open>The pawn promotion e7-e8 to a queen: origin 52, destination 60, code 19772.\<close>

theorem move_to_polyglot_int_packs_witness:
  "move_to_polyglot_int ''4k3/4P3/8/8/8/8/8/4K3 w - - 0 1''
      \<lparr>from_square = 52, to_square = 60, promotion = Some QUEEN\<rparr> = Inr 19772
   \<and> dest_field 19772 = 60 \<and> origin_field 19772 = 52 \<and> promo_field 19772 = 4
   \<and> (19772 :: int) < 2 ^ 16"
  using move_to_polyglot_int_packs
    [of "\<lparr>from_square = 52, to_square = 60, promotion = Some QUEEN\<rparr>"
        "''4k3/4P3/8/8/8/8/8/4K3 w - - 0 1''"]
  by (simp add: move_to_polyglot_int_def)

text \<open>
  C1. White's kingside castling is the move e1g1 of python-chess: the king goes from
  e1 (square 4) to g1 (square 6), and the rook starts on h1 (square 7). The format wants
  the rook's square 7 in the destination field; the comment in \<open>move_to_polyglot_int\<close>
  announces that patch, and the body does not make it: the code is 262, whose
  destination field is the king's landing square 6.
\<close>

theorem move_to_polyglot_int_castling:
  "move_to_polyglot_int ''r1bqk1nr/pppp1ppp/2n5/2b1p3/2B1P3/5N2/PPPP1PPP/RNBQK2R w KQkq - 4 4''
      \<lparr>from_square = 4, to_square = 6, promotion = None\<rparr> = Inr 262
   \<and> origin_field 262 = 4 \<and> dest_field 262 = 6 \<and> dest_field 262 \<noteq> 7"
  by (simp add: move_to_polyglot_int_def dest_field_def origin_field_def)

section \<open>Properties of the exploration\<close>

lemma extend_simps [simp]:
  "extend es (Inl e) = Inl e"
  "extend es (Inr (s, new)) = Inr (s, es @ new)"
  by (simp_all add: extend_def)

lemma extend_extend: "extend es (extend fs r) = extend (es @ fs) r"
  by (auto simp: extend_def split: sum.splits)

lemma extend_Nil: "extend [] r = r"
  by (auto simp: extend_def split: sum.splits)

lemma children_extend_step:
  assumes tree: "\<And>s entries board moves.
      explore_tree env pr d s entries board moves thr
        = extend entries (explore_tree env pr d s [] board moves thr)"
  shows "explore_children env pr d s entries board moves thr cs
        = extend entries (explore_children env pr d s [] board moves thr cs)"
proof (induction cs arbitrary: s entries)
  case Nil
  show ?case by simp
next
  case (Cons c cs)
  obtain mv visits where c: "c = (mv, visits)" by (cases c)
  show ?case
  proof (cases "visits < thr")
    case True
    then show ?thesis using Cons.IH [of s entries] c by simp
  next
    case False
    show ?thesis
    proof (cases "is_legal env board mv")
      case False
      with \<open>\<not> visits < thr\<close> c show ?thesis by simp
    next
      case True
      show ?thesis
      proof (cases "explore_tree env pr d s [] (push env board mv) (moves @ [mv]) thr")
        case (Inl e)
        then show ?thesis
          using c True \<open>\<not> visits < thr\<close> tree [of s entries] by simp
      next
        case (Inr r)
        obtain s' new where r: "r = (s', new)" by (cases r)
        have "explore_children env pr d s' (entries @ new) board moves thr cs
            = extend entries (explore_children env pr d s' new board moves thr cs)"
          using Cons.IH [of s' "entries @ new"] Cons.IH [of s' new]
          by (simp add: extend_extend)
        then show ?thesis
          using c True \<open>\<not> visits < thr\<close> tree [of s entries] Inr r by simp
      qed
    qed
  qed
qed


lemma tree_extend:
  "explore_tree env pr d s entries board moves thr
     = extend entries (explore_tree env pr d s [] board moves thr)"
proof (induction d arbitrary: s entries board moves)
  case 0
  show ?case by simp
next
  case (Suc d)
  have ch: "\<And>s entries board moves cs. explore_children env pr d s entries board moves thr cs
        = extend entries (explore_children env pr d s [] board moves thr cs)"
    by (rule children_extend_step) (rule Suc.IH)
  have step: "explore_children env pr d s1 (entries @ [en]) board moves thr children
            = extend entries (explore_children env pr d s1 [en] board moves thr children)"
    for s1 en children
    using ch [of s1 "entries @ [en]" board moves children] ch [of s1 "[en]" board moves children]
    by (simp add: extend_extend)
  show ?case
    by (simp add: step split: sum.splits prod.splits)
qed


lemma getitem_key: "k \<in> fst ` set d \<Longrightarrow> \<exists>v. getitem d k = Inr v"
  by (cases "map_of d k") (auto simp: getitem_def map_of_eq_None_iff)

lemma getitem_Inr_key: "getitem d k = Inr v \<Longrightarrow> k \<in> fst ` set d"
  using map_of_SomeD [of d k v] by (force simp: getitem_def split: option.splits)

lemma max_loop_spec:
  assumes "f best = Inr bv" "\<forall>x\<in>set xs. \<exists>v. f x = Inr v"
  shows "\<exists>r rv. max_loop f best bv xs = Inr r \<and> r \<in> insert best (set xs) \<and> f r = Inr rv
           \<and> bv \<le> rv \<and> (\<forall>x\<in>set xs. \<forall>v. f x = Inr v \<longrightarrow> v \<le> rv)"
  using assms
proof (induction xs arbitrary: best bv)
  case Nil
  then show ?case by simp
next
  case (Cons x xs)
  from Cons.prems obtain v where v: "f x = Inr v" by auto
  have rest: "\<forall>y\<in>set xs. \<exists>w. f y = Inr w" using Cons.prems by simp
  show ?case
  proof (cases "v > bv")
    case True
    from Cons.IH [OF v rest] obtain r rv where
      "max_loop f x v xs = Inr r" "r \<in> insert x (set xs)" "f r = Inr rv" "v \<le> rv"
      "\<forall>y\<in>set xs. \<forall>w. f y = Inr w \<longrightarrow> w \<le> rv" by blast
    with v True show ?thesis by auto
  next
    case False
    from Cons.IH [OF Cons.prems(1) rest] obtain r rv where
      "max_loop f best bv xs = Inr r" "r \<in> insert best (set xs)" "f r = Inr rv" "bv \<le> rv"
      "\<forall>y\<in>set xs. \<forall>w. f y = Inr w \<longrightarrow> w \<le> rv" by blast
    with v False show ?thesis by auto
  qed
qed

lemma py_max_keys:
  assumes "children \<noteq> []"
  shows "\<exists>best vmax. py_max (map fst children) (getitem children) = Inr best
           \<and> best \<in> fst ` set children \<and> getitem children best = Inr vmax
           \<and> (\<forall>m v. getitem children m = Inr v \<longrightarrow> v \<le> vmax)"
proof -
  obtain c cs where cs: "children = c # cs" using assms by (cases children) auto
  obtain v0 where v0: "getitem children (fst c) = Inr v0"
    using getitem_key [of "fst c" children] cs by auto
  have all: "\<forall>x\<in>set (map fst cs). \<exists>v. getitem children x = Inr v"
    using getitem_key [of _ children] cs by auto
  from max_loop_spec [OF v0 all] obtain r rv where r:
    "max_loop (getitem children) (fst c) v0 (map fst cs) = Inr r"
    "r \<in> insert (fst c) (set (map fst cs))" "getitem children r = Inr rv" "v0 \<le> rv"
    "\<forall>x\<in>set (map fst cs). \<forall>v. getitem children x = Inr v \<longrightarrow> v \<le> rv" by blast
  have pm: "py_max (map fst children) (getitem children) = Inr r"
    using cs v0 r(1) by (simp add: py_max_def)
  have mem: "r \<in> fst ` set children" using r(2) cs by auto
  have ub: "v \<le> rv" if "getitem children m = Inr v" for m v
  proof -
    from that have "m \<in> fst ` set children" by (rule getitem_Inr_key)
    then have "m = fst c \<or> m \<in> set (map fst cs)" using cs by auto
    then show ?thesis using that v0 r(4,5) by auto
  qed
  from pm mem r(3) ub show ?thesis by blast
qed

lemma explore_tree_node:
  assumes "pr s moves = Inr (children, s1)" "children \<noteq> []"
    and "explore_tree env pr (Suc d) s entries board moves thr = Inr (s', entries')"
  shows "\<exists>best v en rest.
           py_max (map fst children) (getitem children) = Inr best
         \<and> getitem children best = Inr v
         \<and> make_entry env board best (min 65535 (v div 256)) 0 = Inr en
         \<and> explore_children env pr d s1 [] board moves thr children = Inr (s', rest)
         \<and> entries' = entries @ en # rest"
proof -
  from assms obtain best v en where
    b: "py_max (map fst children) (getitem children) = Inr best"
    and v: "getitem children best = Inr v"
    and en: "make_entry env board best (min 65535 (v div 256)) 0 = Inr en"
    and ch: "explore_children env pr d s1 (entries @ [en]) board moves thr children = Inr (s', entries')"
    by (auto split: sum.splits)
  have "explore_children env pr d s1 (entries @ [en]) board moves thr children
      = extend (entries @ [en]) (explore_children env pr d s1 [] board moves thr children)"
    by (rule children_extend_step) (rule tree_extend)
  with ch obtain rest where
    "explore_children env pr d s1 [] board moves thr children = Inr (s', rest)"
    "entries' = (entries @ [en]) @ rest"
    by (auto simp: extend_def split: sum.splits)
  with b v en show ?thesis by auto
qed

lemma children_trace_step:
  assumes tree: "\<And>s log entries board moves s' log' entries'.
      explore_tree env (traced pr) d (s, log) entries board moves thr = Inr ((s', log'), entries')
      \<Longrightarrow> \<exists>new. log' = log @ moves # new \<and> (\<forall>p\<in>set new. length moves < length p)"
  shows "explore_children env (traced pr) d (s, log) entries board moves thr cs
           = Inr ((s', log'), entries')
      \<Longrightarrow> \<exists>new. log' = log @ new \<and> (\<forall>p\<in>set new. length moves < length p)
             \<and> filter (\<lambda>p. length p = Suc (length moves)) new
                 = map (\<lambda>c. moves @ [fst c]) (filter (\<lambda>c. thr \<le> snd c) cs)"
proof (induction cs arbitrary: s log entries)
  case Nil
  then show ?case by simp
next
  case (Cons c cs)
  obtain mv visits where c: "c = (mv, visits)" by (cases c)
  show ?case
  proof (cases "visits < thr")
    case True
    with Cons.prems c have
      "explore_children env (traced pr) d (s, log) entries board moves thr cs
         = Inr ((s', log'), entries')" by simp
    from Cons.IH [OF this] True c show ?thesis by simp
  next
    case False
    with Cons.prems c obtain s1 log1 entries1 where
      t: "explore_tree env (traced pr) d (s, log) entries (push env board mv) (moves @ [mv]) thr
            = Inr ((s1, log1), entries1)"
      and r: "explore_children env (traced pr) d (s1, log1) entries1 board moves thr cs
            = Inr ((s', log'), entries')"
      by (auto split: if_splits sum.splits)
    from tree [OF t] obtain new1 where n1: "log1 = log @ (moves @ [mv]) # new1"
      "\<forall>p\<in>set new1. length (moves @ [mv]) < length p" by blast
    from Cons.IH [OF r] obtain new2 where n2: "log' = log1 @ new2"
      "\<forall>p\<in>set new2. length moves < length p"
      "filter (\<lambda>p. length p = Suc (length moves)) new2
         = map (\<lambda>c. moves @ [fst c]) (filter (\<lambda>c. thr \<le> snd c) cs)" by blast
    have f1: "filter (\<lambda>p. length p = Suc (length moves)) new1 = []"
      using n1(2) by (auto simp: filter_empty_conv)
    have "log' = log @ ((moves @ [mv]) # new1 @ new2)" using n1 n2 by simp
    moreover have "\<forall>p\<in>set ((moves @ [mv]) # new1 @ new2). length moves < length p"
      using n1(2) n2(2) by auto
    moreover have "filter (\<lambda>p. length p = Suc (length moves)) ((moves @ [mv]) # new1 @ new2)
        = map (\<lambda>c. moves @ [fst c]) (filter (\<lambda>c. thr \<le> snd c) (c # cs))"
      using f1 n2(3) False c by simp
    ultimately show ?thesis by blast
  qed
qed

lemma tree_trace:
  "explore_tree env (traced pr) d (s, log) entries board moves thr = Inr ((s', log'), entries')
     \<Longrightarrow> \<exists>new. log' = log @ moves # new \<and> (\<forall>p\<in>set new. length moves < length p)"
proof (induction d arbitrary: s log entries board moves s' log' entries')
  case 0
  then show ?case by simp
next
  case (Suc d)
  from Suc.prems obtain children s1 where
    p: "pr s moves = Inr (children, s1)"
    by (auto simp: traced_def split: sum.splits)
  then have tp: "traced pr (s, log) moves = Inr (children, (s1, log @ [moves]))"
    by (simp add: traced_def)
  show ?case
  proof (cases "children = []")
    case True
    with Suc.prems tp show ?thesis by auto
  next
    case False
    from explore_tree_node [OF tp False Suc.prems] obtain rest where
      ch: "explore_children env (traced pr) d (s1, log @ [moves]) [] board moves thr children
         = Inr ((s', log'), rest)" by blast
    have "\<exists>new. log' = (log @ [moves]) @ new \<and> (\<forall>p\<in>set new. length moves < length p)
             \<and> filter (\<lambda>p. length p = Suc (length moves)) new
                 = map (\<lambda>c. moves @ [fst c]) (filter (\<lambda>c. thr \<le> snd c) children)"
    proof (rule children_trace_step [where env = env and pr = pr and d = d and thr = thr
          and s = s1 and entries = "[]" and board = board and s' = s' and entries' = rest])
      show "explore_children env (traced pr) d (s1, log @ [moves]) [] board moves thr children
         = Inr ((s', log'), rest)" by (rule ch)
    next
      fix sa loga entriesa boarda movesa s'a log'a entries'a
      assume "explore_tree env (traced pr) d (sa, loga) entriesa boarda movesa thr
         = Inr ((s'a, log'a), entries'a)"
      then show "\<exists>new. log'a = loga @ movesa # new \<and> (\<forall>p\<in>set new. length movesa < length p)"
        by (rule Suc.IH)
    qed
    then show ?thesis by auto
  qed
qed

lemma explore_children_pruned:
  "explore_children env pr d s es board moves thr children
     = explore_children env pr d s es board moves thr (filter (\<lambda>c. thr \<le> snd c) children)"
proof (induction children arbitrary: s es)
  case Nil
  show ?case by simp
next
  case (Cons c cs)
  obtain mv visits where c: "c = (mv, visits)" by (cases c)
  show ?case
  proof (cases "visits < thr")
    case True
    then show ?thesis using Cons.IH [of s es] c by simp
  next
    case False
    then show ?thesis
      by (auto simp: c split: sum.splits intro!: Cons.IH)
  qed
qed

lemma explore_tree_step:
  assumes "pr s moves = Inr (children, st)" "children \<noteq> []"
  shows "\<exists>best v.
           py_max (map fst children) (getitem children) = Inr best
         \<and> getitem children best = Inr v
         \<and> explore_tree env pr (Suc d) s entries board moves thr
             = (case make_entry env board best (min 65535 (v div 256)) 0 of
                  Inl e \<Rightarrow> Inl e
                | Inr en \<Rightarrow>
                    explore_children env pr d st (entries @ [en]) board moves thr children)"
proof -
  from py_max_keys [OF assms(2)] obtain best v where
    b: "py_max (map fst children) (getitem children) = Inr best"
    and v: "getitem children best = Inr v" by blast
  have "explore_tree env pr (Suc d) s entries board moves thr
             = (case make_entry env board best (min 65535 (v div 256)) 0 of
                  Inl e \<Rightarrow> Inl e
                | Inr en \<Rightarrow>
                    explore_children env pr d st (entries @ [en]) board moves thr children)"
    using assms b v by simp
  with b v show ?thesis by blast
qed

lemma make_entry_fields:
  assumes "make_entry env board mv w l = Inr en"
  shows "key en = zobrist_hash env board" "move_to_polyglot_int board mv = Inr (raw_move en)"
    "weight en = w" "learn en = l"
  using assms by (auto simp: make_entry_def split: sum.splits)

text \<open>
  C7. When the probe of a position returns the empty dictionary, \<open>explore_tree\<close>
  returns at once and normally: the entries are the ones it was given, so no record is
  written for the position, and the state is the one the single probe left. With the
  probes recorded, the record grows by this position's path and nothing else, so there
  is no recursion.
\<close>

theorem explore_tree_empty_probe:
  assumes "pr s moves = Inr ([], s')"
  shows "explore_tree env pr (Suc d) s entries board moves thr = Inr (s', entries)
       \<and> explore_tree env (traced pr) (Suc d) (s, log) entries board moves thr
           = Inr ((s', log @ [moves]), entries)"
  using assms by (simp add: traced_def)

theorem explore_tree_empty_probe_witness:
  "demo_probe () [e2e4, e7e5] = Inr ([], ())
   \<and> explore_tree demo_env demo_probe (Suc 0) () [\<lparr>key = 0, raw_move = 796, weight = 3, learn = 0\<rparr>]
        [e2e4, e7e5] [e2e4, e7e5] 10
      = Inr ((), [\<lparr>key = 0, raw_move = 796, weight = 3, learn = 0\<rparr>])
   \<and> explore_tree demo_env (traced demo_probe) (Suc 0) ((), [[], [e2e4]])
        [\<lparr>key = 0, raw_move = 796, weight = 3, learn = 0\<rparr>] [e2e4, e7e5] [e2e4, e7e5] 10
      = Inr (((), [[], [e2e4], [e2e4, e7e5]]), [\<lparr>key = 0, raw_move = 796, weight = 3, learn = 0\<rparr>])"
proof -
  have h: "demo_probe () [e2e4, e7e5] = Inr ([], ())"
    by (simp add: demo_probe_def e2e4_def e7e5_def)
  show ?thesis
    using h explore_tree_empty_probe [where pr = demo_probe and s = "()" and s' = "()"
        and moves = "[e2e4, e7e5]" and env = demo_env and d = 0
        and entries = "[\<lparr>key = 0, raw_move = 796, weight = 3, learn = 0\<rparr>]"
        and board = "[e2e4, e7e5]" and thr = 10 and log = "[[], [e2e4]]", OF h]
    by simp
qed

text \<open>
  C2. When the probe of a position returns a non-empty dictionary, \<open>max\<close> finds a
  best move and its visit count \<open>v\<close>, and \<open>explore_tree\<close> appends one record for
  the best move to the entries it was given before it enters the loop over the children
  (or raises, when the move cannot be encoded). The record has the hash of the position
  as key, the code of the best move, \<open>learn = 0\<close> and
  \<open>weight = min 65535 (v div 256)\<close>: at most 65535, not negative for a visit count that
  is not negative, and 65535 at \<open>v = 256 * 65535\<close> and at \<open>v = 256 * 65535 + 255\<close>.
  When \<open>explore_tree\<close> returns, the entries it returns are the entries it was given,
  then this record, then the records \<open>rest\<close> that the loop over the children produces
  from the subtrees.
\<close>

theorem explore_tree_weight:
  assumes "pr s moves = Inr (children, st)" "children \<noteq> []"
  shows "\<exists>best v.
           py_max (map fst children) (getitem children) = Inr best
         \<and> getitem children best = Inr v
         \<and> explore_tree env pr (Suc d) s entries board moves thr
             = (case make_entry env board best (min 65535 (v div 256)) 0 of
                  Inl e \<Rightarrow> Inl e
                | Inr en \<Rightarrow>
                    explore_children env pr d st (entries @ [en]) board moves thr children)
         \<and> (\<forall>en. make_entry env board best (min 65535 (v div 256)) 0 = Inr en \<longrightarrow>
                key en = zobrist_hash env board
              \<and> move_to_polyglot_int board best = Inr (raw_move en)
              \<and> weight en = min 65535 (v div 256) \<and> learn en = 0
              \<and> weight en \<le> 65535 \<and> (0 \<le> v \<longrightarrow> 0 \<le> weight en)
              \<and> (v = 256 * 65535 \<longrightarrow> weight en = 65535)
              \<and> (v = 256 * 65535 + 255 \<longrightarrow> weight en = 65535))
         \<and> (\<forall>s' entries'.
                explore_tree env pr (Suc d) s entries board moves thr = Inr (s', entries') \<longrightarrow>
                (\<exists>en rest.
                    make_entry env board best (min 65535 (v div 256)) 0 = Inr en
                  \<and> entries' = entries @ en # rest
                  \<and> explore_children env pr d st [] board moves thr children = Inr (s', rest)))"
proof -
  from explore_tree_step [where pr = pr and s = s and moves = moves and env = env and d = d
      and entries = entries and board = board and thr = thr, OF assms] obtain best v where
    b: "py_max (map fst children) (getitem children) = Inr best"
    and v: "getitem children best = Inr v"
    and st: "explore_tree env pr (Suc d) s entries board moves thr
             = (case make_entry env board best (min 65535 (v div 256)) 0 of
                  Inl e \<Rightarrow> Inl e
                | Inr en \<Rightarrow>
                    explore_children env pr d st (entries @ [en]) board moves thr children)"
    by blast
  have f: "key en = zobrist_hash env board
              \<and> move_to_polyglot_int board best = Inr (raw_move en)
              \<and> weight en = min 65535 (v div 256) \<and> learn en = 0
              \<and> weight en \<le> 65535 \<and> (0 \<le> v \<longrightarrow> 0 \<le> weight en)
              \<and> (v = 256 * 65535 \<longrightarrow> weight en = 65535)
              \<and> (v = 256 * 65535 + 255 \<longrightarrow> weight en = 65535)"
    if en: "make_entry env board best (min 65535 (v div 256)) 0 = Inr en" for en
  proof -
    note m = make_entry_fields [OF en]
    have w1: "weight en \<le> 65535" using m(3) by simp
    have w2: "0 \<le> v \<longrightarrow> 0 \<le> weight en" using m(3) by (simp add: pos_imp_zdiv_nonneg_iff)
    have w3: "v = 256 * 65535 \<longrightarrow> weight en = 65535" using m(3) by simp
    have w4: "v = 256 * 65535 + 255 \<longrightarrow> weight en = 65535" using m(3) by simp
    from m w1 w2 w3 w4 show ?thesis by blast
  qed
  have r: "\<exists>en rest.
                    make_entry env board best (min 65535 (v div 256)) 0 = Inr en
                  \<and> entries' = entries @ en # rest
                  \<and> explore_children env pr d st [] board moves thr children = Inr (s', rest)"
    if ret: "explore_tree env pr (Suc d) s entries board moves thr = Inr (s', entries')"
    for s' entries'
  proof -
    from explore_tree_node [OF assms ret] obtain best' v' en rest where
      n: "py_max (map fst children) (getitem children) = Inr best'"
      "getitem children best' = Inr v'"
      "make_entry env board best' (min 65535 (v' div 256)) 0 = Inr en"
      "explore_children env pr d st [] board moves thr children = Inr (s', rest)"
      "entries' = entries @ en # rest" by blast
    from n(1,2) b v have "best' = best" "v' = v" by simp_all
    with n show ?thesis by blast
  qed
  from b v st f r show ?thesis by blast
qed

theorem explore_tree_weight_witness:
  "root_probe 16776960 () [] = Inr ([(d2d4, 5), (e2e4, 16776960)], ())
   \<and> explore_tree demo_env (root_probe 16776960) (Suc (Suc 0)) () [] [] [] 10
        = Inr ((), [\<lparr>key = 0, raw_move = 796, weight = 65535, learn = 0\<rparr>])
   \<and> (\<exists>best v.
           py_max (map fst ([(d2d4, 5), (e2e4, 16776960)] :: (move \<times> int) list)) (getitem ([(d2d4, 5), (e2e4, 16776960)] :: (move \<times> int) list)) = Inr best
         \<and> getitem ([(d2d4, 5), (e2e4, 16776960)] :: (move \<times> int) list) best = Inr v
         \<and> explore_tree demo_env (root_probe 16776960) (Suc (Suc 0)) () ([] :: entry list) ([] :: move list) ([] :: move list) (10 :: int)
             = (case make_entry demo_env ([] :: move list) best (min 65535 (v div 256)) 0 of
                  Inl e \<Rightarrow> Inl e
                | Inr en \<Rightarrow>
                    explore_children demo_env (root_probe 16776960) (Suc 0) () (([] :: entry list) @ [en]) ([] :: move list) ([] :: move list) (10 :: int) ([(d2d4, 5), (e2e4, 16776960)] :: (move \<times> int) list))
         \<and> (\<forall>en. make_entry demo_env ([] :: move list) best (min 65535 (v div 256)) 0 = Inr en \<longrightarrow>
                key en = zobrist_hash demo_env ([] :: move list)
              \<and> move_to_polyglot_int ([] :: move list) best = Inr (raw_move en)
              \<and> weight en = min 65535 (v div 256) \<and> learn en = 0
              \<and> weight en \<le> 65535 \<and> (0 \<le> v \<longrightarrow> 0 \<le> weight en)
              \<and> (v = 256 * 65535 \<longrightarrow> weight en = 65535)
              \<and> (v = 256 * 65535 + 255 \<longrightarrow> weight en = 65535))
         \<and> (\<forall>s' entries'.
                explore_tree demo_env (root_probe 16776960) (Suc (Suc 0)) () ([] :: entry list) ([] :: move list) ([] :: move list) (10 :: int) = Inr (s', entries') \<longrightarrow>
                (\<exists>en rest.
                    make_entry demo_env ([] :: move list) best (min 65535 (v div 256)) 0 = Inr en
                  \<and> entries' = ([] :: entry list) @ en # rest
                  \<and> explore_children demo_env (root_probe 16776960) (Suc 0) () [] ([] :: move list) ([] :: move list) (10 :: int) ([(d2d4, 5), (e2e4, 16776960)] :: (move \<times> int) list) = Inr (s', rest))))
   \<and> root_probe 16777215 () [] = Inr ([(d2d4, 5), (e2e4, 16777215)], ())
   \<and> explore_tree demo_env (root_probe 16777215) (Suc (Suc 0)) () [] [] [] 10
        = Inr ((), [\<lparr>key = 0, raw_move = 796, weight = 65535, learn = 0\<rparr>])
   \<and> (\<exists>best v.
           py_max (map fst ([(d2d4, 5), (e2e4, 16777215)] :: (move \<times> int) list)) (getitem ([(d2d4, 5), (e2e4, 16777215)] :: (move \<times> int) list)) = Inr best
         \<and> getitem ([(d2d4, 5), (e2e4, 16777215)] :: (move \<times> int) list) best = Inr v
         \<and> explore_tree demo_env (root_probe 16777215) (Suc (Suc 0)) () ([] :: entry list) ([] :: move list) ([] :: move list) (10 :: int)
             = (case make_entry demo_env ([] :: move list) best (min 65535 (v div 256)) 0 of
                  Inl e \<Rightarrow> Inl e
                | Inr en \<Rightarrow>
                    explore_children demo_env (root_probe 16777215) (Suc 0) () (([] :: entry list) @ [en]) ([] :: move list) ([] :: move list) (10 :: int) ([(d2d4, 5), (e2e4, 16777215)] :: (move \<times> int) list))
         \<and> (\<forall>en. make_entry demo_env ([] :: move list) best (min 65535 (v div 256)) 0 = Inr en \<longrightarrow>
                key en = zobrist_hash demo_env ([] :: move list)
              \<and> move_to_polyglot_int ([] :: move list) best = Inr (raw_move en)
              \<and> weight en = min 65535 (v div 256) \<and> learn en = 0
              \<and> weight en \<le> 65535 \<and> (0 \<le> v \<longrightarrow> 0 \<le> weight en)
              \<and> (v = 256 * 65535 \<longrightarrow> weight en = 65535)
              \<and> (v = 256 * 65535 + 255 \<longrightarrow> weight en = 65535))
         \<and> (\<forall>s' entries'.
                explore_tree demo_env (root_probe 16777215) (Suc (Suc 0)) () ([] :: entry list) ([] :: move list) ([] :: move list) (10 :: int) = Inr (s', entries') \<longrightarrow>
                (\<exists>en rest.
                    make_entry demo_env ([] :: move list) best (min 65535 (v div 256)) 0 = Inr en
                  \<and> entries' = ([] :: entry list) @ en # rest
                  \<and> explore_children demo_env (root_probe 16777215) (Suc 0) () [] ([] :: move list) ([] :: move list) (10 :: int) ([(d2d4, 5), (e2e4, 16777215)] :: (move \<times> int) list) = Inr (s', rest))))"
proof -
  have a1: "root_probe 16776960 () [] = Inr ([(d2d4, 5), (e2e4, 16776960)], ())"
    by (simp add: root_probe_def)
  have a2: "[(d2d4, 5), (e2e4, 16776960)] \<noteq> ([] :: (move \<times> int) list)"
    by simp
  have a3: "explore_tree demo_env (root_probe 16776960) (Suc (Suc 0)) () [] [] [] 10
        = Inr ((), [\<lparr>key = 0, raw_move = 796, weight = 65535, learn = 0\<rparr>])"
    by (simp add: root_probe_def demo_env_def py_max_def getitem_def make_entry_def
      move_to_polyglot_int_def e2e4_def d2d4_def)
  have b1: "root_probe 16777215 () [] = Inr ([(d2d4, 5), (e2e4, 16777215)], ())"
    by (simp add: root_probe_def)
  have b2: "[(d2d4, 5), (e2e4, 16777215)] \<noteq> ([] :: (move \<times> int) list)"
    by simp
  have b3: "explore_tree demo_env (root_probe 16777215) (Suc (Suc 0)) () [] [] [] 10
        = Inr ((), [\<lparr>key = 0, raw_move = 796, weight = 65535, learn = 0\<rparr>])"
    by (simp add: root_probe_def demo_env_def py_max_def getitem_def make_entry_def
      move_to_polyglot_int_def e2e4_def d2d4_def)
  note ta = explore_tree_weight [where pr = "root_probe 16776960" and s = "()" and moves = "[] :: move list"
      and children = "[(d2d4, 5), (e2e4, 16776960)]" and st = "()" and env = demo_env and d = "Suc 0"
      and entries = "[] :: entry list" and board = "[] :: move list" and thr = "10 :: int",
      OF a1 a2]
  note tb = explore_tree_weight [where pr = "root_probe 16777215" and s = "()" and moves = "[] :: move list"
      and children = "[(d2d4, 5), (e2e4, 16777215)]" and st = "()" and env = demo_env and d = "Suc 0"
      and entries = "[] :: entry list" and board = "[] :: move list" and thr = "10 :: int",
      OF b1 b2]
  show ?thesis
    by (rule conjI [OF a1 conjI [OF a3 conjI [OF ta conjI [OF b1 conjI [OF b3 tb]]]]])
qed


text \<open>
  C3. When the probe of a position returns a non-empty dictionary, the move \<open>best\<close>
  that \<open>max\<close> chooses is a key of the dictionary whose visit count \<open>vmax\<close> is at
  least the visit count of every key, and it is the move \<open>explore_tree\<close> records:
  the call goes on with the entry made for \<open>best\<close> appended, and when it returns, the
  first entry behind the ones it was given has the hash of the position and the code of
  \<open>best\<close>. Nothing is said about which of several moves with the greatest count is
  chosen.
\<close>

theorem explore_tree_best_move:
  assumes "pr s moves = Inr (children, st)" "children \<noteq> []"
  shows "\<exists>best vmax.
           py_max (map fst children) (getitem children) = Inr best
         \<and> best \<in> fst ` set children
         \<and> getitem children best = Inr vmax
         \<and> (best, vmax) \<in> set children
         \<and> (\<forall>m v. getitem children m = Inr v \<longrightarrow> v \<le> vmax)
         \<and> (distinct (map fst children) \<longrightarrow> (\<forall>c\<in>set children. snd c \<le> vmax))
         \<and> explore_tree env pr (Suc d) s entries board moves thr
             = (case make_entry env board best (min 65535 (vmax div 256)) 0 of
                  Inl e \<Rightarrow> Inl e
                | Inr en \<Rightarrow>
                    explore_children env pr d st (entries @ [en]) board moves thr children)
         \<and> (\<forall>s' entries'.
                explore_tree env pr (Suc d) s entries board moves thr = Inr (s', entries') \<longrightarrow>
                  length entries < length entries'
                \<and> take (length entries) entries' = entries
                \<and> key (entries' ! length entries) = zobrist_hash env board
                \<and> move_to_polyglot_int board best = Inr (raw_move (entries' ! length entries)))"
proof -
  from explore_tree_step [where pr = pr and s = s and moves = moves and env = env and d = d
      and entries = entries and board = board and thr = thr, OF assms] obtain best v where
    b: "py_max (map fst children) (getitem children) = Inr best"
    and v: "getitem children best = Inr v"
    and stp: "explore_tree env pr (Suc d) s entries board moves thr
             = (case make_entry env board best (min 65535 (v div 256)) 0 of
                  Inl e \<Rightarrow> Inl e
                | Inr en \<Rightarrow>
                    explore_children env pr d st (entries @ [en]) board moves thr children)"
    by blast
  from py_max_keys [OF assms(2)] b v have
    mem: "best \<in> fst ` set children"
    and ub: "\<forall>m w. getitem children m = Inr w \<longrightarrow> w \<le> v" by auto
  have pair: "(best, v) \<in> set children"
    using v map_of_SomeD [of children best v]
    by (auto simp: getitem_def split: option.splits)
  have dist: "distinct (map fst children) \<longrightarrow> (\<forall>c\<in>set children. snd c \<le> v)"
  proof (intro impI ballI)
    fix c assume d: "distinct (map fst children)" and c: "c \<in> set children"
    have "map_of children (fst c) = Some (snd c)"
      using d c map_of_is_SomeI [of children "fst c" "snd c"] by simp
    then have "getitem children (fst c) = Inr (snd c)" by (simp add: getitem_def)
    with ub show "snd c \<le> v" by blast
  qed
  have r: "length entries < length entries'
                \<and> take (length entries) entries' = entries
                \<and> key (entries' ! length entries) = zobrist_hash env board
                \<and> move_to_polyglot_int board best = Inr (raw_move (entries' ! length entries))"
    if ret: "explore_tree env pr (Suc d) s entries board moves thr = Inr (s', entries')"
    for s' entries'
  proof -
    from explore_tree_node [OF assms ret] obtain best' v' en rest where
      n: "py_max (map fst children) (getitem children) = Inr best'"
      "getitem children best' = Inr v'"
      "make_entry env board best' (min 65535 (v' div 256)) 0 = Inr en"
      "entries' = entries @ en # rest" by blast
    from n(1) b have bb: "best' = best" by simp
    note m = make_entry_fields [OF n(3)]
    have e: "entries' ! length entries = en" using n(4) by simp
    show ?thesis using n(4) m(1,2) bb by (simp add: e)
  qed
  from b mem v pair ub dist stp r show ?thesis by blast
qed


theorem explore_tree_best_move_witness:
  "demo_probe () [] = Inr ([(e2e4, 1000), (d2d4, 5)], ())
   \<and> explore_tree demo_env demo_probe (Suc (Suc (Suc 0))) () [] [] [] 10
        = Inr ((), [\<lparr>key = 0, raw_move = 796, weight = 3, learn = 0\<rparr>, \<lparr>key = 1, raw_move = 3364, weight = 1, learn = 0\<rparr>])
   \<and> (\<exists>best vmax.
           py_max (map fst ([(e2e4, 1000), (d2d4, 5)] :: (move \<times> int) list)) (getitem ([(e2e4, 1000), (d2d4, 5)] :: (move \<times> int) list)) = Inr best
         \<and> best \<in> fst ` set ([(e2e4, 1000), (d2d4, 5)] :: (move \<times> int) list)
         \<and> getitem ([(e2e4, 1000), (d2d4, 5)] :: (move \<times> int) list) best = Inr vmax
         \<and> (best, vmax) \<in> set ([(e2e4, 1000), (d2d4, 5)] :: (move \<times> int) list)
         \<and> (\<forall>m v. getitem ([(e2e4, 1000), (d2d4, 5)] :: (move \<times> int) list) m = Inr v \<longrightarrow> v \<le> vmax)
         \<and> (distinct (map fst ([(e2e4, 1000), (d2d4, 5)] :: (move \<times> int) list)) \<longrightarrow> (\<forall>c\<in>set ([(e2e4, 1000), (d2d4, 5)] :: (move \<times> int) list). snd c \<le> vmax))
         \<and> explore_tree demo_env demo_probe (Suc (Suc (Suc 0))) () ([] :: entry list) ([] :: move list) ([] :: move list) (10 :: int)
             = (case make_entry demo_env ([] :: move list) best (min 65535 (vmax div 256)) 0 of
                  Inl e \<Rightarrow> Inl e
                | Inr en \<Rightarrow>
                    explore_children demo_env demo_probe (Suc (Suc 0)) () (([] :: entry list) @ [en]) ([] :: move list) ([] :: move list) (10 :: int) ([(e2e4, 1000), (d2d4, 5)] :: (move \<times> int) list))
         \<and> (\<forall>s' entries'.
                explore_tree demo_env demo_probe (Suc (Suc (Suc 0))) () ([] :: entry list) ([] :: move list) ([] :: move list) (10 :: int) = Inr (s', entries') \<longrightarrow>
                  length ([] :: entry list) < length entries'
                \<and> take (length ([] :: entry list)) entries' = ([] :: entry list)
                \<and> key (entries' ! length ([] :: entry list)) = zobrist_hash demo_env ([] :: move list)
                \<and> move_to_polyglot_int ([] :: move list) best = Inr (raw_move (entries' ! length ([] :: entry list)))))"
proof -
  have h1: "demo_probe () [] = Inr ([(e2e4, 1000), (d2d4, 5)], ())"
    by (simp add: demo_probe_def)
  have h2: "[(e2e4, 1000), (d2d4, 5)] \<noteq> ([] :: (move \<times> int) list)"
    by simp
  have h3: "explore_tree demo_env demo_probe (Suc (Suc (Suc 0))) () [] [] [] 10
        = Inr ((), [\<lparr>key = 0, raw_move = 796, weight = 3, learn = 0\<rparr>, \<lparr>key = 1, raw_move = 3364, weight = 1, learn = 0\<rparr>])"
    by (simp add: demo_probe_def demo_env_def py_max_def getitem_def make_entry_def
      move_to_polyglot_int_def e2e4_def d2d4_def e7e5_def)
  note t = explore_tree_best_move [where pr = demo_probe and s = "()" and moves = "[] :: move list"
      and children = "[(e2e4, 1000), (d2d4, 5)]" and st = "()" and env = demo_env
      and d = "Suc (Suc 0)" and entries = "[] :: entry list" and board = "[] :: move list"
      and thr = "10 :: int", OF h1 h2]
  show ?thesis
    by (rule conjI [OF h1 conjI [OF h3 t]])
qed


text \<open>
  C4. With the probes recorded, a call of \<open>explore_tree\<close> that returns has probed its
  own path first; the paths it probed one move below are, in the order of the
  dictionary, the path extended by each move whose visit count is at least the
  threshold, each once, and by no other move; every later probe is deeper. The moves
  below the threshold have no effect at all: the loop over the children gives the same
  state and the same entries as the loop over the moves at or above the threshold. For
  such a move, when legal, the loop calls \<open>explore_tree\<close> on the position with the move
  played and the path extended by the move, and goes on with the other children.
\<close>

theorem explore_tree_threshold:
  assumes "pr s moves = Inr (children, st)"
    and "explore_tree env (traced pr) (Suc d) (s, log) entries board moves thr
           = Inr ((s', log'), entries')"
  shows "(\<exists>new. log' = log @ moves # new
            \<and> filter (\<lambda>p. length p = Suc (length moves)) new
                = map (\<lambda>c. moves @ [fst c]) (filter (\<lambda>c. thr \<le> snd c) children)
            \<and> (\<forall>p\<in>set new. length moves < length p))
       \<and> explore_children env pr d st es board moves thr children
           = explore_children env pr d st es board moves thr
               (filter (\<lambda>c. thr \<le> snd c) children)
       \<and> (\<forall>mv visits rest. thr \<le> visits \<longrightarrow> is_legal env board mv \<longrightarrow>
            explore_children env pr d st es board moves thr ((mv, visits) # rest)
              = (case explore_tree env pr d st es (push env board mv) (moves @ [mv]) thr of
                   Inl e \<Rightarrow> Inl e
                 | Inr (sa, esa) \<Rightarrow> explore_children env pr d sa esa board moves thr rest))"
proof -
  have tp: "traced pr (s, log) moves = Inr (children, (st, log @ [moves]))"
    using assms(1) by (simp add: traced_def)
  have a: "\<exists>new. log' = log @ moves # new
            \<and> filter (\<lambda>p. length p = Suc (length moves)) new
                = map (\<lambda>c. moves @ [fst c]) (filter (\<lambda>c. thr \<le> snd c) children)
            \<and> (\<forall>p\<in>set new. length moves < length p)"
  proof (cases "children = []")
    case True
    with assms(2) tp show ?thesis by auto
  next
    case False
    from explore_tree_node [OF tp False assms(2)] obtain rest where
      ch: "explore_children env (traced pr) d (st, log @ [moves]) [] board moves thr children
         = Inr ((s', log'), rest)" by blast
    have "\<exists>new. log' = (log @ [moves]) @ new \<and> (\<forall>p\<in>set new. length moves < length p)
             \<and> filter (\<lambda>p. length p = Suc (length moves)) new
                 = map (\<lambda>c. moves @ [fst c]) (filter (\<lambda>c. thr \<le> snd c) children)"
    proof (rule children_trace_step [where env = env and pr = pr and d = d and thr = thr
          and s = st and entries = "[]" and board = board and s' = s' and entries' = rest])
      show "explore_children env (traced pr) d (st, log @ [moves]) [] board moves thr children
         = Inr ((s', log'), rest)" by (rule ch)
    next
      fix sa loga entriesa boarda movesa s'a log'a entries'a
      assume "explore_tree env (traced pr) d (sa, loga) entriesa boarda movesa thr
         = Inr ((s'a, log'a), entries'a)"
      then show "\<exists>new. log'a = loga @ movesa # new \<and> (\<forall>p\<in>set new. length movesa < length p)"
        by (rule tree_trace)
    qed
    then show ?thesis by auto
  qed
  have b: "explore_children env pr d st es board moves thr children
           = explore_children env pr d st es board moves thr
               (filter (\<lambda>c. thr \<le> snd c) children)"
    by (rule explore_children_pruned)
  have c: "\<forall>mv visits rest. thr \<le> visits \<longrightarrow> is_legal env board mv \<longrightarrow>
            explore_children env pr d st es board moves thr ((mv, visits) # rest)
              = (case explore_tree env pr d st es (push env board mv) (moves @ [mv]) thr of
                   Inl e \<Rightarrow> Inl e
                 | Inr (sa, esa) \<Rightarrow> explore_children env pr d sa esa board moves thr rest)"
    by simp
  from a b c show ?thesis by blast
qed

theorem explore_tree_threshold_witness:
  "demo_probe () [] = Inr ([(e2e4, 1000), (d2d4, 5)], ())
   \<and> explore_tree demo_env (traced demo_probe) (Suc (Suc (Suc 0))) ((), []) [] [] [] 10
        = Inr (((), [[], [e2e4], [e2e4, e7e5]]), [\<lparr>key = 0, raw_move = 796, weight = 3, learn = 0\<rparr>, \<lparr>key = 1, raw_move = 3364, weight = 1, learn = 0\<rparr>])
   \<and> (\<exists>new. [[], [e2e4], [e2e4, e7e5]] = ([] :: move list list) @ ([] :: move list) # new
            \<and> filter (\<lambda>p. length p = Suc (length ([] :: move list))) new
                = map (\<lambda>c. ([] :: move list) @ [fst c]) (filter (\<lambda>c. (10 :: int) \<le> snd c) ([(e2e4, 1000), (d2d4, 5)] :: (move \<times> int) list))
            \<and> (\<forall>p\<in>set new. length ([] :: move list) < length p))
   \<and> explore_children demo_env demo_probe (Suc (Suc 0)) () ([] :: entry list) ([] :: move list) ([] :: move list) (10 :: int) ([(e2e4, 1000), (d2d4, 5)] :: (move \<times> int) list)
           = explore_children demo_env demo_probe (Suc (Suc 0)) () ([] :: entry list) ([] :: move list) ([] :: move list) (10 :: int)
               (filter (\<lambda>c. (10 :: int) \<le> snd c) ([(e2e4, 1000), (d2d4, 5)] :: (move \<times> int) list))
   \<and> 
            explore_children demo_env demo_probe (Suc (Suc 0)) () ([] :: entry list) ([] :: move list) ([] :: move list) (10 :: int) ((e2e4, (1000 :: int)) # [(d2d4, 5 :: int)])
              = (case explore_tree demo_env demo_probe (Suc (Suc 0)) () ([] :: entry list) (push demo_env ([] :: move list) e2e4) (([] :: move list) @ [e2e4]) (10 :: int) of
                   Inl e \<Rightarrow> Inl e
                 | Inr (sa, esa) \<Rightarrow> explore_children demo_env demo_probe (Suc (Suc 0)) sa esa ([] :: move list) ([] :: move list) (10 :: int) [(d2d4, 5 :: int)])"
proof -
  have h1: "demo_probe () [] = Inr ([(e2e4, 1000), (d2d4, 5)], ())"
    by (simp add: demo_probe_def)
  have h2: "explore_tree demo_env (traced demo_probe) (Suc (Suc (Suc 0))) ((), []) [] [] [] 10
        = Inr (((), [[], [e2e4], [e2e4, e7e5]]), [\<lparr>key = 0, raw_move = 796, weight = 3, learn = 0\<rparr>, \<lparr>key = 1, raw_move = 3364, weight = 1, learn = 0\<rparr>])"
    by (simp add: demo_probe_def traced_def demo_env_def py_max_def getitem_def make_entry_def
      move_to_polyglot_int_def e2e4_def d2d4_def e7e5_def)
  have l1: "(10 :: int) \<le> 1000"
    by simp
  have l2: "is_legal demo_env ([] :: move list) e2e4"
    by (simp add: demo_env_def)
  note t = explore_tree_threshold [where es = "[] :: entry list", OF h1 h2]
  note p1 = t [THEN conjunct1]
  note p2 = t [THEN conjunct2, THEN conjunct1]
  note p3 = t [THEN conjunct2, THEN conjunct2, rule_format, OF l1 l2,
      where rest = "[(d2d4, 5 :: int)]"]
  show ?thesis
    by (rule conjI [OF h1 conjI [OF h2 conjI [OF p1 conjI [OF p2 p3]]]])
qed

section \<open>Properties of the protocol driver\<close>

lemma read_dump_step:
  "readline l = (line, l1) \<Longrightarrow>
   read_dump env l children =
     (if contains ''end-dump'' line then Inr (children, l1)
      else (case parse_dump_line env line of
              Inl e \<Rightarrow> Inl e
            | Inr (mv, visits) \<Rightarrow> read_dump env l1 (dict_set children mv visits)))"
  by (subst read_dump.simps) simp

lemma read_dump_stdin:
  "read_dump env l children = Inr (children', l') \<Longrightarrow> proc_stdin l' = proc_stdin l"
proof (induction env l children rule: read_dump.induct)
  case (1 env l children)
  obtain line l1 where rl: "readline l = (line, l1)" by (cases "readline l")
  then have s1: "proc_stdin l1 = proc_stdin l"
    by (auto simp: readline_def split: list.splits)
  show ?case
  proof (cases "contains ''end-dump'' line")
    case True
    with "1.prems" s1 show ?thesis by (simp add: read_dump_step [OF rl])
  next
    case False
    with "1.prems" obtain mv visits where
      p: "parse_dump_line env line = Inr (mv, visits)"
      and r: "read_dump env l1 (dict_set children mv visits) = Inr (children', l')"
      by (auto simp: read_dump_step [OF rl] split: sum.splits)
    from "1.IH" [OF rl [symmetric] False p refl r] s1 show ?thesis by simp
  qed
qed

lemma read_dump_no_sentinel:
  "list_all (\<lambda>line. \<not> contains ''end-dump'' line) (proc_stdout l)
     \<Longrightarrow> \<exists>e. read_dump env l children = Inl e"
proof (induction env l children rule: read_dump.induct)
  case (1 env l children)
  obtain line l1 where rl: "readline l = (line, l1)" by (cases "readline l")
  show ?case
  proof (cases "proc_stdout l")
    case Nil
    with rl have "line = []" by (simp add: readline_def)
    then have "parse_dump_line env line = Inl AttributeError"
      by (simp add: parse_dump_line_def py_str_def Let_def)
    with \<open>line = []\<close> show ?thesis by (simp add: read_dump_step [OF rl])
  next
    case (Cons x xs)
    with rl have lx: "line = x" "proc_stdout l1 = xs" by (auto simp: readline_def)
    with "1.prems" Cons have ns: "\<not> contains ''end-dump'' line"
      and rest: "list_all (\<lambda>line. \<not> contains ''end-dump'' line) (proc_stdout l1)" by auto
    show ?thesis
    proof (cases "parse_dump_line env line")
      case (Inl e)
      with ns show ?thesis by (simp add: read_dump_step [OF rl])
    next
      case (Inr r)
      obtain mv visits where r: "r = (mv, visits)" by (cases r)
      from "1.IH" [OF rl [symmetric] ns Inr [unfolded r] refl rest]
      show ?thesis using ns Inr r by (simp add: read_dump_step [OF rl])
    qed
  qed
qed


lemma read_dump_malformed:
  assumes "proc_stdout l = pre @ bad # post"
    and "list_all (\<lambda>line. \<not> contains ''end-dump'' line) pre"
    and "\<not> contains ''end-dump'' bad"
    and "re_search ''move='' (py_str bad) = None \<or> re_search ''n='' (py_str bad) = None"
  shows "\<exists>e. read_dump env l children = Inl e"
  using assms
proof (induction pre arbitrary: l children)
  case Nil
  then have rl: "readline l = (bad, l\<lparr>proc_stdout := post\<rparr>)"
    by (simp add: readline_def)
  have "\<exists>e. parse_dump_line env bad = Inl e"
    using Nil.prems(4) by (auto simp: parse_dump_line_def split: option.splits sum.splits)
  with Nil.prems(3) show ?case by (auto simp: read_dump_step [OF rl])
next
  case (Cons x xs)
  then have rl: "readline l = (x, l\<lparr>proc_stdout := xs @ bad # post\<rparr>)"
    by (simp add: readline_def)
  from Cons.prems have ns: "\<not> contains ''end-dump'' x" by simp
  show ?case
  proof (cases "parse_dump_line env x")
    case (Inl e)
    with ns show ?thesis by (simp add: read_dump_step [OF rl])
  next
    case (Inr r)
    obtain mv visits where r: "r = (mv, visits)" by (cases r)
    have "\<exists>e. read_dump env (l\<lparr>proc_stdout := xs @ bad # post\<rparr>) (dict_set children mv visits) = Inl e"
      by (rule Cons.IH) (use Cons.prems in simp_all)
    with ns Inr r show ?thesis by (simp add: read_dump_step [OF rl])
  qed
qed

lemma probe_error:
  "(\<exists>e. read_dump env (l\<lparr>proc_stdin := proc_stdin l @ [probe_command env moves]\<rparr>) [] = Inl e)
     \<Longrightarrow> \<exists>e. probe env l moves = Inl e"
  by (auto simp: probe_def send_def)

text \<open>
  C5. The lines \<open>pre\<close> that \<open>probe\<close> reads hold no sentinel. If the stream ends
  after them (\<open>readline\<close> then gives the empty line), or if the next line holds no
  sentinel and the search for the move token or the search for the visit-count token
  finds nothing in it, then \<open>probe\<close> raises: its result is an error, never a
  dictionary, and the loop ends. The tokens are looked for as the code does it, in
  \<open>str(line)\<close>.
\<close>

theorem probe_raises_on_fault:
  assumes "list_all (\<lambda>line. \<not> contains ''end-dump'' line) pre"
    and "proc_stdout l = pre
         \<or> (\<exists>bad post. proc_stdout l = pre @ bad # post
              \<and> \<not> contains ''end-dump'' bad
              \<and> (re_search ''move='' (py_str bad) = None
                   \<or> re_search ''n='' (py_str bad) = None))"
  shows "\<exists>e. probe env l moves = Inl e"
proof (rule probe_error)
  let ?l = "l\<lparr>proc_stdin := proc_stdin l @ [probe_command env moves]\<rparr>"
  from assms(2) show "\<exists>e. read_dump env ?l [] = Inl e"
  proof
    assume "proc_stdout l = pre"
    with assms(1) have "list_all (\<lambda>line. \<not> contains ''end-dump'' line) (proc_stdout ?l)"
      by simp
    then show ?thesis by (rule read_dump_no_sentinel)
  next
    assume "\<exists>bad post. proc_stdout l = pre @ bad # post
              \<and> \<not> contains ''end-dump'' bad
              \<and> (re_search ''move='' (py_str bad) = None
                   \<or> re_search ''n='' (py_str bad) = None)"
    then obtain bad post where b: "proc_stdout ?l = pre @ bad # post"
      "\<not> contains ''end-dump'' bad"
      "re_search ''move='' (py_str bad) = None \<or> re_search ''n='' (py_str bad) = None"
      by auto
    from b(1) assms(1) b(2,3) show ?thesis by (rule read_dump_malformed)
  qed
qed


theorem probe_raises_on_fault_witness:
  "list_all (\<lambda>line. \<not> contains ''end-dump'' line) [''move=e2e4 n=1000 q=0.5'' @ [CHR 0x0A]]
   \<and> proc_stdout \<lparr>proc_stdin = [], proc_stdout = [''move=e2e4 n=1000 q=0.5'' @ [CHR 0x0A]]\<rparr>
        = [''move=e2e4 n=1000 q=0.5'' @ [CHR 0x0A]]
   \<and> (\<exists>e. probe demo_env
              \<lparr>proc_stdin = [], proc_stdout = [''move=e2e4 n=1000 q=0.5'' @ [CHR 0x0A]]\<rparr> []
            = Inl e)
   \<and> proc_stdout \<lparr>proc_stdin = [], proc_stdout =
          [''move=e2e4 n=1000 q=0.5'' @ [CHR 0x0A], ''info garbage'' @ [CHR 0x0A],
           ''end-dump'' @ [CHR 0x0A]]\<rparr>
        = [''move=e2e4 n=1000 q=0.5'' @ [CHR 0x0A]] @ (''info garbage'' @ [CHR 0x0A])
            # [''end-dump'' @ [CHR 0x0A]]
   \<and> \<not> contains ''end-dump'' (''info garbage'' @ [CHR 0x0A])
   \<and> re_search ''move='' (py_str (''info garbage'' @ [CHR 0x0A])) = None
   \<and> (\<exists>e. probe demo_env
              \<lparr>proc_stdin = [], proc_stdout =
                 [''move=e2e4 n=1000 q=0.5'' @ [CHR 0x0A], ''info garbage'' @ [CHR 0x0A],
                  ''end-dump'' @ [CHR 0x0A]]\<rparr> []
            = Inl e)
   \<and> probe demo_env
         \<lparr>proc_stdin = [], proc_stdout =
            [''move=e2e4 n=1000 q=0.5'' @ [CHR 0x0A], ''info garbage'' @ [CHR 0x0A],
             ''end-dump'' @ [CHR 0x0A]]\<rparr> []
       = Inl AttributeError"
proof -
  let ?good = "''move=e2e4 n=1000 q=0.5'' @ [CHR 0x0A]"
  let ?bad = "''info garbage'' @ [CHR 0x0A]"
  let ?la = "\<lparr>proc_stdin = [], proc_stdout = [?good]\<rparr>"
  let ?lb = "\<lparr>proc_stdin = [], proc_stdout = [?good, ?bad, ''end-dump'' @ [CHR 0x0A]]\<rparr>"
  have pre: "list_all (\<lambda>line. \<not> contains ''end-dump'' line) [?good]"
    by simp
  have a: "proc_stdout ?la = [?good]"
    by simp
  have b: "proc_stdout ?lb = [?good] @ ?bad # [''end-dump'' @ [CHR 0x0A]]"
    by simp
  have nb: "\<not> contains ''end-dump'' ?bad"
    by simp
  have tok: "re_search ''move='' (py_str ?bad) = None"
    by (simp add: py_str_def repr_byte_def Let_def)
  have ra: "\<exists>e. probe demo_env ?la [] = Inl e"
    by (rule probe_raises_on_fault [OF pre]) (simp only: a, simp)
  have rb: "\<exists>e. probe demo_env ?lb [] = Inl e"
    by (rule probe_raises_on_fault [OF pre]) (use b nb tok in blast)
  have run: "probe demo_env ?lb [] = Inl AttributeError"
    by (simp add: probe_def send_def probe_command_def demo_env_def read_dump.simps
        readline_def parse_dump_line_def py_str_def repr_byte_def demo_from_uci_def demo_move_def
        parse_square_def demo_int_def Let_def)
  from pre a ra b nb tok rb run show ?thesis
    by (intro conjI)
qed

lemma no_newline_in_moves:
  "list_all (\<lambda>mv. CHR 0x0A \<notin> set (uci env mv)) moves
     \<Longrightarrow> CHR 0x0A \<notin> set (concat (map (\<lambda>mv. CHR 0x20 # uci env mv) moves))"
  by (induction moves) auto

lemma ascii_command:
  "list_all (\<lambda>mv. list_all (\<lambda>c. (of_char c :: nat) < 128) (uci env mv)) moves
     \<Longrightarrow> list_all (\<lambda>c. (of_char c :: nat) < 128) (probe_command env moves)"
  by (induction moves) (auto simp: probe_command_def)

text \<open>
  C9. For moves whose UCI strings are ASCII, \<open>probe\<close> writes one byte string to the
  engine and then only reads: the string is \<open>dumpnode moves\<close>, then a space and the UCI
  string of each move of the path in order, then a newline; for the empty path it is
  \<open>dumpnode moves\<close> and the newline. When \<open>probe\<close> returns, the engine's input has
  grown by exactly this string, and when no UCI string holds a newline the string is a
  single line.
\<close>

theorem probe_sends_dumpnode:
  assumes "list_all (\<lambda>mv. list_all (\<lambda>c. (of_char c :: nat) < 128) (uci env mv)) moves"
  shows "probe_command env moves
           = ''dumpnode moves'' @ concat (map (\<lambda>mv. CHR 0x20 # uci env mv) moves) @ [CHR 0x0A]
       \<and> probe_command env [] = ''dumpnode moves'' @ [CHR 0x0A]
       \<and> send l (probe_command env moves)
           = Inr (l\<lparr>proc_stdin := proc_stdin l @ [probe_command env moves]\<rparr>)
       \<and> probe env l moves
           = read_dump env (l\<lparr>proc_stdin := proc_stdin l @ [probe_command env moves]\<rparr>) []
       \<and> (\<forall>children l'. probe env l moves = Inr (children, l')
            \<longrightarrow> proc_stdin l' = proc_stdin l @ [probe_command env moves])
       \<and> (list_all (\<lambda>mv. CHR 0x0A \<notin> set (uci env mv)) moves
            \<longrightarrow> count_list (probe_command env moves) (CHR 0x0A) = 1)"
proof -
  have c1: "probe_command env moves
           = ''dumpnode moves'' @ concat (map (\<lambda>mv. CHR 0x20 # uci env mv) moves) @ [CHR 0x0A]"
    by (simp add: probe_command_def)
  have c2: "probe_command env [] = ''dumpnode moves'' @ [CHR 0x0A]"
    by (simp add: probe_command_def)
  have c3: "send l (probe_command env moves)
           = Inr (l\<lparr>proc_stdin := proc_stdin l @ [probe_command env moves]\<rparr>)"
    using ascii_command [OF assms] by (simp add: send_def)
  have c4: "probe env l moves
           = read_dump env (l\<lparr>proc_stdin := proc_stdin l @ [probe_command env moves]\<rparr>) []"
    using c3 by (simp add: probe_def)
  have c5: "\<forall>children l'. probe env l moves = Inr (children, l')
            \<longrightarrow> proc_stdin l' = proc_stdin l @ [probe_command env moves]"
  proof (intro allI impI)
    fix children l'
    assume "probe env l moves = Inr (children, l')"
    then have "read_dump env (l\<lparr>proc_stdin := proc_stdin l @ [probe_command env moves]\<rparr>) []
        = Inr (children, l')"
      by (simp only: c4)
    from read_dump_stdin [OF this]
    show "proc_stdin l' = proc_stdin l @ [probe_command env moves]"
      by simp
  qed
  have c6: "list_all (\<lambda>mv. CHR 0x0A \<notin> set (uci env mv)) moves
            \<longrightarrow> count_list (probe_command env moves) (CHR 0x0A) = 1"
  proof
    assume "list_all (\<lambda>mv. CHR 0x0A \<notin> set (uci env mv)) moves"
    then have "count_list (concat (map (\<lambda>mv. CHR 0x20 # uci env mv) moves)) (CHR 0x0A) = 0"
      using no_newline_in_moves [of env moves] by (simp add: count_list_0_iff)
    then show "count_list (probe_command env moves) (CHR 0x0A) = 1"
      by (simp add: probe_command_def)
  qed
  from c1 c2 c3 c4 c5 c6 show ?thesis by (intro conjI)
qed

theorem probe_sends_dumpnode_witness:
  "list_all (\<lambda>mv. list_all (\<lambda>c. (of_char c :: nat) < 128) (uci demo_env mv)) [e2e4, e7e5]
   \<and> probe_command demo_env [e2e4, e7e5] = ''dumpnode moves e2e4 e7e5'' @ [CHR 0x0A]
   \<and> probe_command demo_env [] = ''dumpnode moves'' @ [CHR 0x0A]
   \<and> probe demo_env
        \<lparr>proc_stdin = [], proc_stdout =
           [''move=g1f3 n=700 q=0.5'' @ [CHR 0x0A], ''end-dump'' @ [CHR 0x0A]]\<rparr> [e2e4, e7e5]
      = Inr ([(\<lparr>from_square = 6, to_square = 21, promotion = None\<rparr>, 700)],
             \<lparr>proc_stdin = [''dumpnode moves e2e4 e7e5'' @ [CHR 0x0A]], proc_stdout = []\<rparr>)
   \<and> count_list (probe_command demo_env [e2e4, e7e5]) (CHR 0x0A) = 1"
proof -
  have h: "list_all (\<lambda>mv. list_all (\<lambda>c. (of_char c :: nat) < 128) (uci demo_env mv)) [e2e4, e7e5]"
    by (simp add: demo_env_def demo_uci_def square_name_def e2e4_def e7e5_def)
  have n: "list_all (\<lambda>mv. CHR 0x0A \<notin> set (uci demo_env mv)) [e2e4, e7e5]"
    by (simp add: demo_env_def demo_uci_def square_name_def e2e4_def e7e5_def)
  have cmd: "probe_command demo_env [e2e4, e7e5] = ''dumpnode moves e2e4 e7e5'' @ [CHR 0x0A]"
    by (simp add: probe_command_def demo_env_def demo_uci_def square_name_def e2e4_def e7e5_def)
  note t = probe_sends_dumpnode [OF h, where l = "\<lparr>proc_stdin = [], proc_stdout =
           [''move=g1f3 n=700 q=0.5'' @ [CHR 0x0A], ''end-dump'' @ [CHR 0x0A]]\<rparr>"]
  have rd: "read_dump demo_env
        \<lparr>proc_stdin = [''dumpnode moves e2e4 e7e5'' @ [CHR 0x0A]], proc_stdout =
           [''move=g1f3 n=700 q=0.5'' @ [CHR 0x0A], ''end-dump'' @ [CHR 0x0A]]\<rparr> []
      = Inr ([(\<lparr>from_square = 6, to_square = 21, promotion = None\<rparr>, 700)],
             \<lparr>proc_stdin = [''dumpnode moves e2e4 e7e5'' @ [CHR 0x0A]], proc_stdout = []\<rparr>)"
    by (simp add: demo_env_def read_dump.simps readline_def parse_dump_line_def py_str_def
        repr_byte_def demo_from_uci_def demo_move_def parse_square_def demo_int_def Let_def)
  have run: "probe demo_env
        \<lparr>proc_stdin = [], proc_stdout =
           [''move=g1f3 n=700 q=0.5'' @ [CHR 0x0A], ''end-dump'' @ [CHR 0x0A]]\<rparr> [e2e4, e7e5]
      = Inr ([(\<lparr>from_square = 6, to_square = 21, promotion = None\<rparr>, 700)],
             \<lparr>proc_stdin = [''dumpnode moves e2e4 e7e5'' @ [CHR 0x0A]], proc_stdout = []\<rparr>)"
    using t [THEN conjunct2, THEN conjunct2, THEN conjunct2, THEN conjunct1] cmd rd by simp
  have cnt: "count_list (probe_command demo_env [e2e4, e7e5]) (CHR 0x0A) = 1"
    using t [THEN conjunct2, THEN conjunct2, THEN conjunct2, THEN conjunct2, THEN conjunct2] n
    by blast
  have c2: "probe_command demo_env [] = ''dumpnode moves'' @ [CHR 0x0A]"
    by (rule t [THEN conjunct2, THEN conjunct1])
  from h cmd c2 run cnt show ?thesis by (intro conjI)
qed

section \<open>Properties of the book file\<close>

lemma length_be_bytes: "length (be_bytes n v) = n"
  by (induction n arbitrary: v) simp_all

lemma be_value_snoc: "be_value (bs @ [b]) = be_value bs * 256 + uint b"
  by (simp add: be_value_def)

lemma be_value_be_bytes: "be_value (be_bytes n v) = v mod 256 ^ n"
proof (induction n arbitrary: v)
  case 0
  show ?case by (simp add: be_value_def)
next
  case (Suc n)
  have u: "uint (word_of_int (v mod 256) :: byte) = v mod 256"
    by (simp add: uint_word_of_int take_bit_eq_mod)
  have "be_value (be_bytes (Suc n) v) = (v div 256 mod 256 ^ n) * 256 + v mod 256"
    by (simp add: be_value_snoc Suc.IH u)
  also have "\<dots> = v mod (256 * 256 ^ n)"
    using zmod_zmult2_eq [of "256 ^ n" v 256] by (simp add: mult.commute)
  finally show ?case by simp
qed

lemma be_value_be_bytes_id:
  "0 \<le> v \<Longrightarrow> v < 256 ^ n \<Longrightarrow> be_value (be_bytes n v) = v"
  by (simp add: be_value_be_bytes)

lemma length_entry_bytes: "length (entry_bytes e) = 16"
  by (simp add: entry_bytes_def length_be_bytes)

lemma pack_entry_ok: "entry_ok e \<Longrightarrow> pack_entry e = Inr (entry_bytes e)"
  by (simp add: entry_ok_def pack_entry_def pack_uint_def entry_bytes_def)

lemma pack_entry_not_ok: "\<not> entry_ok e \<Longrightarrow> pack_entry e = Inl StructError"
  by (auto simp: entry_ok_def pack_entry_def pack_uint_def)

lemma write_entries_prefix:
  "write_entries f es
     = (f @ concat (map entry_bytes (takeWhile entry_ok es)),
        if list_all entry_ok es then None else Some StructError)"
proof (induction es arbitrary: f)
  case Nil
  show ?case by simp
next
  case (Cons e es)
  show ?case
  proof (cases "entry_ok e")
    case True
    then show ?thesis using Cons.IH [of "f @ entry_bytes e"] by (simp add: pack_entry_ok)
  next
    case False
    then show ?thesis by (simp add: pack_entry_not_ok)
  qed
qed

lemma entry_fields:
  assumes "entry_ok e"
  shows "be_value (take 8 (entry_bytes e)) = key e"
    and "be_value (take 2 (drop 8 (entry_bytes e))) = raw_move e"
    and "be_value (take 2 (drop 10 (entry_bytes e))) = weight e"
    and "be_value (drop 12 (entry_bytes e)) = learn e"
  using assms
  by (simp_all add: entry_bytes_def length_be_bytes entry_ok_def be_value_be_bytes_id)

lemma read_keys_records:
  "list_all entry_ok es
     \<Longrightarrow> read_keys (length es) (concat (map entry_bytes es)) = map key es"
proof (induction es)
  case Nil
  show ?case by simp
next
  case (Cons e es)
  then have ok: "entry_ok e" and rest: "list_all entry_ok es" by simp_all
  have t: "take 8 (entry_bytes e @ concat (map entry_bytes es)) = take 8 (entry_bytes e)"
    by (simp add: length_entry_bytes)
  have d: "drop 16 (entry_bytes e @ concat (map entry_bytes es)) = concat (map entry_bytes es)"
    by (simp add: length_entry_bytes)
  show ?case
    using Cons.IH [OF rest] entry_fields(1) [OF ok] by (simp add: length_entry_bytes)
qed

lemma length_records: "length (concat (map entry_bytes es)) = 16 * length es"
  by (induction es) (simp_all add: length_entry_bytes)

lemma book_keys_records:
  "list_all entry_ok es \<Longrightarrow> book_keys (concat (map entry_bytes es)) = map key es"
  by (simp add: book_keys_def length_records read_keys_records)

lemma list_all_takeWhile: "list_all P (takeWhile P xs)"
  by (induction xs) simp_all

lemma book_keys_written:
  "book_keys (fst (write_polyglot_bin [] entries))
     = map key (takeWhile entry_ok (sort_key key entries))"
  by (simp add: write_polyglot_bin_def write_entries_prefix book_keys_records list_all_takeWhile)

lemma sorted_written: "sorted (book_keys (fst (write_polyglot_bin [] entries)))"
proof -
  let ?xs = "sort_key key entries"
  have s: "sorted (map key ?xs)"
    by (rule sorted_sort_key)
  obtain n where n: "takeWhile entry_ok ?xs = take n ?xs"
    using takeWhile_eq_take [of entry_ok ?xs] by blast
  have "map key (takeWhile entry_ok ?xs) = take n (map key ?xs)"
    by (simp only: n take_map)
  moreover have "sorted (take n (map key ?xs))"
    using s by (rule sorted_wrt_take)
  ultimately show ?thesis
    by (simp only: book_keys_written)
qed


text \<open>
  C6. \<open>write_polyglot_bin\<close> sorts the entries by key, ascending, with a stable sort:
  the sorted list is a permutation of the input, its keys do not decrease, and the
  entries of each key keep their order. When every entry fits the field types, the
  bytes appended to the file are the 16-byte records of the sorted entries one after
  the other and nothing else, and the call does not raise; a record is the key in 8
  bytes, the move code in 2, the weight in 2 and the learn tag in 4, each big-endian.
  For any input at all, the keys read back from what was written to an empty file do
  not decrease.
\<close>

theorem write_polyglot_bin_sorted:
  "(list_all entry_ok entries \<longrightarrow>
      write_polyglot_bin f entries
        = (f @ concat (map entry_bytes (sort_key key entries)), None)
      \<and> book_keys (fst (write_polyglot_bin [] entries)) = map key (sort_key key entries))
   \<and> sorted (map key (sort_key key entries))
   \<and> mset (sort_key key entries) = mset entries
   \<and> (\<forall>k. filter (\<lambda>x. key x = k) (sort_key key entries) = filter (\<lambda>x. key x = k) entries)
   \<and> (entry_ok e \<longrightarrow>
        pack_entry e = Inr (entry_bytes e) \<and> length (entry_bytes e) = 16
        \<and> be_value (take 8 (entry_bytes e)) = key e
        \<and> be_value (take 2 (drop 8 (entry_bytes e))) = raw_move e
        \<and> be_value (take 2 (drop 10 (entry_bytes e))) = weight e
        \<and> be_value (drop 12 (entry_bytes e)) = learn e)
   \<and> sorted (book_keys (fst (write_polyglot_bin [] entries)))"
proof -
  have ok_sorted: "list_all entry_ok (sort_key key entries)" if "list_all entry_ok entries"
    using that by (simp add: list_all_iff)
  have a: "list_all entry_ok entries \<longrightarrow>
      write_polyglot_bin f entries
        = (f @ concat (map entry_bytes (sort_key key entries)), None)
      \<and> book_keys (fst (write_polyglot_bin [] entries)) = map key (sort_key key entries)"
  proof
    assume ok: "list_all entry_ok entries"
    have tw: "takeWhile entry_ok (sort_key key entries) = sort_key key entries"
      using ok_sorted [OF ok] by (simp add: list_all_iff)
    have w1: "write_polyglot_bin f entries
        = (f @ concat (map entry_bytes (sort_key key entries)), None)"
      by (simp add: write_polyglot_bin_def write_entries_prefix tw ok_sorted [OF ok])
    have w2: "book_keys (fst (write_polyglot_bin [] entries)) = map key (sort_key key entries)"
      by (simp add: book_keys_written tw)
    from w1 w2 show "write_polyglot_bin f entries
        = (f @ concat (map entry_bytes (sort_key key entries)), None)
      \<and> book_keys (fst (write_polyglot_bin [] entries)) = map key (sort_key key entries)"
      by (rule conjI)
  qed
  have b: "sorted (map key (sort_key key entries))"
    by (rule sorted_sort_key)
  have c: "mset (sort_key key entries) = mset entries"
    by simp
  have d: "\<forall>k. filter (\<lambda>x. key x = k) (sort_key key entries) = filter (\<lambda>x. key x = k) entries"
    by (simp add: sort_key_stable)
  have e: "entry_ok e \<longrightarrow>
        pack_entry e = Inr (entry_bytes e) \<and> length (entry_bytes e) = 16
        \<and> be_value (take 8 (entry_bytes e)) = key e
        \<and> be_value (take 2 (drop 8 (entry_bytes e))) = raw_move e
        \<and> be_value (take 2 (drop 10 (entry_bytes e))) = weight e
        \<and> be_value (drop 12 (entry_bytes e)) = learn e"
    using pack_entry_ok [of e] length_entry_bytes [of e] entry_fields [of e] by blast
  have g: "sorted (book_keys (fst (write_polyglot_bin [] entries)))"
    by (rule sorted_written)
  from a b c d e g show ?thesis by (intro conjI)
qed

theorem write_polyglot_bin_sorted_witness:
  "list_all entry_ok
     [\<lparr>key = 72623859790382856, raw_move = 796, weight = 3, learn = 0\<rparr>,
      \<lparr>key = 2, raw_move = 3364, weight = 65535, learn = 0\<rparr>]
   \<and> write_polyglot_bin []
     [\<lparr>key = 72623859790382856, raw_move = 796, weight = 3, learn = 0\<rparr>,
      \<lparr>key = 2, raw_move = 3364, weight = 65535, learn = 0\<rparr>]
     = ([0, 0, 0, 0, 0, 0, 0, 2, 13, 36, 255, 255, 0, 0, 0, 0,
       1, 2, 3, 4, 5, 6, 7, 8, 3, 28, 0, 3, 0, 0, 0, 0], None)
   \<and> book_keys (fst (write_polyglot_bin []
     [\<lparr>key = 72623859790382856, raw_move = 796, weight = 3, learn = 0\<rparr>,
      \<lparr>key = 2, raw_move = 3364, weight = 65535, learn = 0\<rparr>])) = [2, 72623859790382856]
   \<and> entry_ok \<lparr>key = 72623859790382856, raw_move = 796, weight = 3, learn = 0\<rparr>
   \<and> pack_entry \<lparr>key = 72623859790382856, raw_move = 796, weight = 3, learn = 0\<rparr>
       = Inr [1, 2, 3, 4, 5, 6, 7, 8, 3, 28, 0, 3, 0, 0, 0, 0]
   \<and> be_value (take 8 (entry_bytes \<lparr>key = 72623859790382856, raw_move = 796, weight = 3, learn = 0\<rparr>)) = 72623859790382856"
proof -
  let ?es = "[\<lparr>key = 72623859790382856, raw_move = 796, weight = 3, learn = 0\<rparr>,
      \<lparr>key = 2, raw_move = 3364, weight = 65535, learn = 0\<rparr>]"
  let ?a = "\<lparr>key = 72623859790382856, raw_move = 796, weight = 3, learn = 0\<rparr>"
  have ok: "list_all entry_ok ?es"
    by (simp add: entry_ok_def)
  have oka: "entry_ok ?a"
    by (simp add: entry_ok_def)
  have srt: "sort_key key ?es = [\<lparr>key = 2, raw_move = 3364, weight = 65535, learn = 0\<rparr>, \<lparr>key = 72623859790382856, raw_move = 796, weight = 3, learn = 0\<rparr>]"
    by simp
  have ba: "entry_bytes ?a = [1, 2, 3, 4, 5, 6, 7, 8, 3, 28, 0, 3, 0, 0, 0, 0]"
    by (simp add: entry_bytes_def eval_nat_numeral)
  have bb: "entry_bytes \<lparr>key = 2, raw_move = 3364, weight = 65535, learn = 0\<rparr> = [0, 0, 0, 0, 0, 0, 0, 2, 13, 36, 255, 255, 0, 0, 0, 0]"
    by (simp add: entry_bytes_def eval_nat_numeral)
  note t = write_polyglot_bin_sorted [where entries = ?es and f = "[]" and e = ?a]
  note t1 = t [THEN conjunct1, THEN mp, OF ok]
  note t5 = t [THEN conjunct2, THEN conjunct2, THEN conjunct2, THEN conjunct2, THEN conjunct1,
      THEN mp, OF oka]
  have w: "write_polyglot_bin [] ?es = ([0, 0, 0, 0, 0, 0, 0, 2, 13, 36, 255, 255, 0, 0, 0, 0,
       1, 2, 3, 4, 5, 6, 7, 8, 3, 28, 0, 3, 0, 0, 0, 0], None)"
    using t1 [THEN conjunct1] by (simp add: srt ba bb)
  have k: "book_keys (fst (write_polyglot_bin [] ?es)) = [2, 72623859790382856]"
    using t1 [THEN conjunct2] by (simp add: srt)
  have p: "pack_entry ?a = Inr [1, 2, 3, 4, 5, 6, 7, 8, 3, 28, 0, 3, 0, 0, 0, 0]"
    using t5 [THEN conjunct1] by (simp add: ba)
  have v: "be_value (take 8 (entry_bytes ?a)) = 72623859790382856"
    using t5 [THEN conjunct2, THEN conjunct2, THEN conjunct1] by simp
  from ok w k oka p v show ?thesis by (intro conjI)
qed

section \<open>Properties of the multiwrite loop\<close>

lemma write_ok:
  "list_all entry_ok es \<Longrightarrow> write_polyglot_bin [] es = (fst (write_polyglot_bin [] es), None)"
  by (simp add: write_polyglot_bin_def write_entries_prefix list_all_iff)

lemma multiwrite_loop_from:
  assumes ret: "\<forall>i\<le>k. \<exists>r. pass env pr limit s i = Inr r"
    and big: "\<forall>i<k. 2 < length (pass_entries env pr limit s i)
                   \<and> list_all entry_ok (pass_entries env pr limit s i)"
    and small: "length (pass_entries env pr limit s k) \<le> 2"
  shows "j \<le> k \<Longrightarrow> k - j < n \<Longrightarrow>
     multiwrite_loop n env pr limit path (pass_state env pr limit s j) files (256 * 2 ^ j)
       = Some (Inr (pass_state env pr limit s (Suc k),
            files @ map (\<lambda>i. (book_path path (256 * 2 ^ i),
                               fst (write_polyglot_bin [] (pass_entries env pr limit s i))))
                      [j..<k]))"
proof (induction n arbitrary: j files)
  case 0
  then show ?case by simp
next
  case (Suc n)
  from ret Suc.prems(1) obtain s' es where r: "pass env pr limit s j = Inr (s', es)"
    by (metis surj_pair)
  then have ex: "explore_tree env pr limit (pass_state env pr limit s j) [] (start_board env) []
       (256 * 2 ^ j) = Inr (s', es)"
    by (simp add: pass_def)
  have pe: "pass_entries env pr limit s j = es"
    using r by (simp add: pass_entries_def)
  have ps: "pass_state env pr limit s (Suc j) = s'"
    using ex by simp
  show ?case
  proof (cases "j = k")
    case True
    with small pe have "\<not> 2 < length es" by simp
    with ex ps True show ?thesis by simp
  next
    case False
    with Suc.prems have jk: "j < k" "Suc j \<le> k" "k - Suc j < n" by simp_all
    from big jk(1) pe have l: "2 < length es" and ok: "list_all entry_ok es" by auto
    obtain bytes where w: "write_polyglot_bin [] es = (bytes, None)"
      using write_ok [OF ok] by blast
    then have fb: "fst (write_polyglot_bin [] es) = bytes"
      by simp
    have th: "(256 :: int) * 2 ^ j * 2 = 256 * 2 ^ Suc j"
      by simp
    have "multiwrite_loop (Suc n) env pr limit path (pass_state env pr limit s j) files (256 * 2 ^ j)
        = multiwrite_loop n env pr limit path s'
            (files @ [(book_path path (256 * 2 ^ j), fst (write_polyglot_bin [] es))])
            (256 * 2 ^ j * 2)"
      by (simp only: multiwrite_loop.simps ex sum.case prod.case l if_True w option.case fst_conv)
    also have "\<dots> = multiwrite_loop n env pr limit path (pass_state env pr limit s (Suc j))
            (files @ [(book_path path (256 * 2 ^ j), fst (write_polyglot_bin [] es))])
            (256 * 2 ^ Suc j)"
      by (simp only: ps th)
    also have "\<dots> = Some (Inr (pass_state env pr limit s (Suc k),
            (files @ [(book_path path (256 * 2 ^ j), fst (write_polyglot_bin [] es))])
              @ map (\<lambda>i. (book_path path (256 * 2 ^ i),
                               fst (write_polyglot_bin [] (pass_entries env pr limit s i))))
                      [Suc j..<k]))"
      by (rule Suc.IH [OF jk(2,3)])
    also have "(files @ [(book_path path (256 * 2 ^ j), fst (write_polyglot_bin [] es))])
              @ map (\<lambda>i. (book_path path (256 * 2 ^ i),
                               fst (write_polyglot_bin [] (pass_entries env pr limit s i))))
                      [Suc j..<k]
        = files @ map (\<lambda>i. (book_path path (256 * 2 ^ i),
                               fst (write_polyglot_bin [] (pass_entries env pr limit s i))))
                      [j..<k]"
      using jk(1) pe by (simp add: upt_conv_Cons)
    finally show ?thesis .
  qed
qed


text \<open>
  C10. Suppose the passes 0 to \<open>k\<close> of the multiwrite loop all return, each of the
  passes before \<open>k\<close> collects more than 2 entries (that fit the field types, so that
  writing them does not raise) and pass \<open>k\<close> collects at most 2. Then the loop ends
  after pass \<open>k\<close>, given room for more than \<open>k\<close> passes. Pass \<open>i\<close> explores with
  the threshold \<open>256 * 2 ^ i\<close>: 256 first, then doubled each time. The files written
  are exactly one for each pass before \<open>k\<close>, in order, named by the output path, a
  hyphen, the threshold in decimal and \<open>n.bin\<close>, holding the book of that pass; no
  file is written for pass \<open>k\<close>.
\<close>

theorem multiwrite_thresholds:
  assumes "\<forall>i\<le>k. \<exists>r. pass env pr limit s i = Inr r"
    and "\<forall>i<k. 2 < length (pass_entries env pr limit s i)
               \<and> list_all entry_ok (pass_entries env pr limit s i)"
    and "length (pass_entries env pr limit s k) \<le> 2"
    and "k < n"
  shows "multiwrite n env pr limit path s files
       = Some (Inr (pass_state env pr limit s (Suc k),
            files @ map (\<lambda>i. (path @ ''-'' @ str_int (256 * 2 ^ i) @ ''n.bin'',
                               fst (write_polyglot_bin [] (pass_entries env pr limit s i))))
                      [0..<k]))"
proof -
  have "multiwrite_loop n env pr limit path (pass_state env pr limit s 0) files (256 * 2 ^ 0)
       = Some (Inr (pass_state env pr limit s (Suc k),
            files @ map (\<lambda>i. (book_path path (256 * 2 ^ i),
                               fst (write_polyglot_bin [] (pass_entries env pr limit s i))))
                      [0..<k]))"
    by (rule multiwrite_loop_from [OF assms(1-3)]) (use assms(4) in simp_all)
  then show ?thesis
    by (simp add: multiwrite_def book_path_def)
qed

theorem multiwrite_thresholds_witness:
  "pass demo_env deep_probe 5 () 0 = Inr ((), [\<lparr>key = 0, raw_move = 796, weight = 3, learn = 0\<rparr>, \<lparr>key = 1, raw_move = 3364, weight = 2, learn = 0\<rparr>, \<lparr>key = 2, raw_move = 731, weight = 1, learn = 0\<rparr>])
   \<and> pass demo_env deep_probe 5 () (Suc 0) = Inr ((), [\<lparr>key = 0, raw_move = 796, weight = 3, learn = 0\<rparr>, \<lparr>key = 1, raw_move = 3364, weight = 2, learn = 0\<rparr>, \<lparr>key = 2, raw_move = 731, weight = 1, learn = 0\<rparr>])
   \<and> pass demo_env deep_probe 5 () (Suc (Suc 0)) = Inr ((), [\<lparr>key = 0, raw_move = 796, weight = 3, learn = 0\<rparr>])
   \<and> multiwrite 3 demo_env deep_probe 5 ''book'' () []
       = Some (Inr ((),
           [(''book-256n.bin'',
         [0, 0, 0, 0, 0, 0, 0, 0, 3, 28, 0, 3, 0, 0, 0, 0,
          0, 0, 0, 0, 0, 0, 0, 1, 13, 36, 0, 2, 0, 0, 0, 0,
          0, 0, 0, 0, 0, 0, 0, 2, 2, 219, 0, 1, 0, 0, 0, 0]),
            (''book-512n.bin'',
         [0, 0, 0, 0, 0, 0, 0, 0, 3, 28, 0, 3, 0, 0, 0, 0,
          0, 0, 0, 0, 0, 0, 0, 1, 13, 36, 0, 2, 0, 0, 0, 0,
          0, 0, 0, 0, 0, 0, 0, 2, 2, 219, 0, 1, 0, 0, 0, 0])]))"
proof -
  let ?es = "[\<lparr>key = 0, raw_move = 796, weight = 3, learn = 0\<rparr>, \<lparr>key = 1, raw_move = 3364, weight = 2, learn = 0\<rparr>, \<lparr>key = 2, raw_move = 731, weight = 1, learn = 0\<rparr>]"
  have p0: "pass demo_env deep_probe 5 () 0 = Inr ((), ?es)"
    by (simp add: pass_def pass_entries_def deep_probe_def demo_env_def py_max_def getitem_def make_entry_def
      move_to_polyglot_int_def e2e4_def d2d4_def e7e5_def eval_nat_numeral)
  have p1: "pass demo_env deep_probe 5 () (Suc 0) = Inr ((), ?es)"
    by (simp add: pass_def pass_entries_def deep_probe_def demo_env_def py_max_def getitem_def make_entry_def
      move_to_polyglot_int_def e2e4_def d2d4_def e7e5_def eval_nat_numeral)
  have p2: "pass demo_env deep_probe 5 () (Suc (Suc 0)) = Inr ((), [\<lparr>key = 0, raw_move = 796, weight = 3, learn = 0\<rparr>])"
    by (simp add: pass_def pass_entries_def deep_probe_def demo_env_def py_max_def getitem_def make_entry_def
      move_to_polyglot_int_def e2e4_def d2d4_def e7e5_def eval_nat_numeral)
  have ok: "list_all entry_ok ?es"
    by (simp add: entry_ok_def)
  have ret: "\<forall>i\<le>Suc (Suc 0). \<exists>r. pass demo_env deep_probe 5 () i = Inr r"
  proof (intro allI impI)
    fix i :: nat
    assume "i \<le> Suc (Suc 0)"
    then consider "i = 0" | "i = Suc 0" | "i = Suc (Suc 0)" by linarith
    then show "\<exists>r. pass demo_env deep_probe 5 () i = Inr r"
      using p0 p1 p2 by cases blast+
  qed
  have big: "\<forall>i<Suc (Suc 0). 2 < length (pass_entries demo_env deep_probe 5 () i)
               \<and> list_all entry_ok (pass_entries demo_env deep_probe 5 () i)"
  proof (intro allI impI)
    fix i :: nat
    assume "i < Suc (Suc 0)"
    then consider "i = 0" | "i = Suc 0" by linarith
    then show "2 < length (pass_entries demo_env deep_probe 5 () i)
               \<and> list_all entry_ok (pass_entries demo_env deep_probe 5 () i)"
      using p0 p1 ok by cases (simp_all add: pass_entries_def)
  qed
  have small: "length (pass_entries demo_env deep_probe 5 () (Suc (Suc 0))) \<le> 2"
    using p2 by (simp add: pass_entries_def)
  have fuel: "Suc (Suc 0) < (3 :: nat)"
    by simp
  have st: "pass_state demo_env deep_probe 5 () (Suc (Suc (Suc 0))) = ()"
    by simp
  have bytes: "fst (write_polyglot_bin [] ?es) =
         [0, 0, 0, 0, 0, 0, 0, 0, 3, 28, 0, 3, 0, 0, 0, 0,
          0, 0, 0, 0, 0, 0, 0, 1, 13, 36, 0, 2, 0, 0, 0, 0,
          0, 0, 0, 0, 0, 0, 0, 2, 2, 219, 0, 1, 0, 0, 0, 0]"
    by (simp add: write_polyglot_bin_def pack_entry_def pack_uint_def eval_nat_numeral)
  have e0: "pass_entries demo_env deep_probe 5 () 0 = ?es"
    using p0 by (simp add: pass_entries_def)
  have e1: "pass_entries demo_env deep_probe 5 () (Suc 0) = ?es"
    using p1 by (simp add: pass_entries_def)
  have names: "str_int (256 * 2 ^ 0) = ''256''" "str_int (256 * 2 ^ Suc 0) = ''512''"
    by (simp_all add: str_int_def digits.simps digit_char_def)
  have run: "multiwrite 3 demo_env deep_probe 5 ''book'' () []
       = Some (Inr ((),
           [(''book-256n.bin'',
         [0, 0, 0, 0, 0, 0, 0, 0, 3, 28, 0, 3, 0, 0, 0, 0,
          0, 0, 0, 0, 0, 0, 0, 1, 13, 36, 0, 2, 0, 0, 0, 0,
          0, 0, 0, 0, 0, 0, 0, 2, 2, 219, 0, 1, 0, 0, 0, 0]),
            (''book-512n.bin'',
         [0, 0, 0, 0, 0, 0, 0, 0, 3, 28, 0, 3, 0, 0, 0, 0,
          0, 0, 0, 0, 0, 0, 0, 1, 13, 36, 0, 2, 0, 0, 0, 0,
          0, 0, 0, 0, 0, 0, 0, 2, 2, 219, 0, 1, 0, 0, 0, 0])]))"
    using multiwrite_thresholds [where env = demo_env and pr = deep_probe and limit = 5
        and s = "()" and k = "Suc (Suc 0)" and n = 3 and path = "''book''" and files = "[]",
        OF ret big small fuel]
    by (simp only: st upt_rec [of 0] upt_rec [of "Suc 0"] upt_rec [of "Suc (Suc 0)"]
        lessI Suc_lessD if_True if_False less_irrefl list.map e0 e1 bytes names append.simps)
  from p0 p1 p2 run show ?thesis by (intro conjI)
qed

end
